theory Spec2Isabelle
  imports Complex_Main "HOL-Library.Sublist"
begin

section \<open>JavaScript strings\<close>

text \<open>
  A document, a heading, a line: all are JavaScript strings, modelled as \<^typ>\<open>string\<close>.
  One \<^typ>\<open>char\<close> stands for one UTF-16 code unit in the range U+0000 .. U+00FF, so
  \<open>length\<close>, \<open>indexOf\<close> and \<open>slice\<close> count what the program counts. The white-space
  set below is ECMAScript's WhiteSpace and LineTerminator restricted to that range; it is
  the set \<open>trim\<close>, \<open>trimStart\<close>, \<open>trimEnd\<close> and the regular expression class
  \<open>\s\<close> use. The only literal of the program outside the range is the dash of the
  phase log line (see \<open>phaseDash\<close>).
\<close>

definition isWhiteSpace :: "char \<Rightarrow> bool" where
  "isWhiteSpace c =
     (c \<in> set [CHR 0x09, CHR 0x0A, CHR 0x0B, CHR 0x0C, CHR 0x0D, CHR 0x20, CHR 0xA0])"

text \<open>The characters the regular expression \<open>.\<close> does not match.\<close>

definition isLineTerminator :: "char \<Rightarrow> bool" where
  "isLineTerminator c = (c \<in> set [CHR 0x0A, CHR 0x0D])"

definition trimStart :: "string \<Rightarrow> string" where
  "trimStart s = dropWhile isWhiteSpace s"

definition trimEnd :: "string \<Rightarrow> string" where
  "trimEnd s = rev (dropWhile isWhiteSpace (rev s))"

definition trim :: "string \<Rightarrow> string" where
  "trim s = trimEnd (trimStart s)"

definition startsWith :: "string \<Rightarrow> string \<Rightarrow> bool" where
  "startsWith s p = (take (length p) s = p)"

definition endsWith :: "string \<Rightarrow> string \<Rightarrow> bool" where
  "endsWith s p = (length p \<le> length s \<and> drop (length s - length p) s = p)"

text \<open>
  \<open>findFirst p s\<close> is the least offset at which \<open>p\<close> occurs in \<open>s\<close>;
  \<open>indexOf s p from\<close> is \<open>s.indexOf(p, from)\<close>, with \<open>None\<close> for \<open>-1\<close> and the
  start position clamped to the length as ECMAScript does.
\<close>

fun findFirst :: "string \<Rightarrow> string \<Rightarrow> nat option" where
  "findFirst p [] = (if p = [] then Some 0 else None)"
| "findFirst p (c # cs) =
     (if startsWith (c # cs) p then Some 0 else map_option Suc (findFirst p cs))"

definition indexOf :: "string \<Rightarrow> string \<Rightarrow> nat \<Rightarrow> nat option" where
  "indexOf s p from =
     (let k = min from (length s) in map_option (\<lambda>i. k + i) (findFirst p (drop k s)))"

definition includesStr :: "string \<Rightarrow> string \<Rightarrow> bool" where
  "includesStr s p = (indexOf s p 0 \<noteq> None)"

text \<open>\<open>includesStr s p\<close> is \<open>s.includes(p)\<close>; \<open>slice s a b\<close> is \<open>s.slice(a, b)\<close> for indices that are not negative; empty when \<open>b \<le> a\<close>.\<close>

definition slice :: "string \<Rightarrow> nat \<Rightarrow> nat \<Rightarrow> string" where
  "slice s a b = take (b - a) (drop a s)"

text \<open>\<open>s.split("\n")\<close>: never empty, a final line feed yields a final empty line.\<close>

fun splitLines :: "string \<Rightarrow> string list" where
  "splitLines [] = [[]]"
| "splitLines (c # cs) =
     (if c = CHR 0x0A then [] # splitLines cs
      else (case splitLines cs of [] \<Rightarrow> [[c]] | l # ls \<Rightarrow> (c # l) # ls))"

text \<open>\<open>xs.join(sep)\<close>.\<close>

fun joinWith :: "string \<Rightarrow> string list \<Rightarrow> string" where
  "joinWith sep [] = []"
| "joinWith sep [x] = x"
| "joinWith sep (x # y # ys) = x @ sep @ joinWith sep (y # ys)"

text \<open>
  \<open>toLowerCase\<close> on the code units of the model: the letters A-Z and the Latin-1 capitals
  U+00C0 .. U+00DE (without the multiplication sign U+00D7) move up by 32.
\<close>

definition lowerChar :: "char \<Rightarrow> char" where
  "lowerChar c =
     (let n = (of_char c :: nat)
      in if (65 \<le> n \<and> n \<le> 90) \<or> (192 \<le> n \<and> n \<le> 222 \<and> n \<noteq> 215)
         then char_of (n + 32) else c)"

definition toLowerCase :: "string \<Rightarrow> string" where
  "toLowerCase s = map lowerChar s"

text \<open>Decimal digits of a number, as a template literal prints \<open>${index + 1}\<close>.\<close>

fun string_of_nat :: "nat \<Rightarrow> string" where
  "string_of_nat n =
     (if n < 10 then [''0123456789'' ! n]
      else string_of_nat (n div 10) @ [''0123456789'' ! (n mod 10)])"

text \<open>\<open>xs.findIndex(P)\<close>, with \<open>None\<close> for \<open>-1\<close>.\<close>

fun findIndex :: "('a \<Rightarrow> bool) \<Rightarrow> 'a list \<Rightarrow> nat option" where
  "findIndex P [] = None"
| "findIndex P (x # xs) = (if P x then Some 0 else map_option Suc (findIndex P xs))"

section \<open>Data model\<close>

datatype SasAgentPhase = Instantiator | Planner | Implementer

datatype SasInvariantStatus = Satisfied | Violated | Unknown

datatype SasPlanStatus = Todo | Done

record SasInvariant =
  invId :: string
  description :: string
  invStatus :: SasInvariantStatus

record SasPlanItem =
  itemId :: string
  itemText :: string
  itemStatus :: SasPlanStatus

text \<open>
  The determinacy is a JavaScript number, the double nearest to the quotient of two
  array lengths. The model keeps the exact quotient: for counts \<open>s \<le> t\<close> below \<open>2^53\<close>
  the rounded quotient lies in \<open>[0, 1]\<close> and compares with \<open>0.5\<close> as the exact one does.
\<close>

record SasDeterminacyState =
  determinacy :: rat
  invariants :: "SasInvariant list"
  plan :: "SasPlanItem list"
  readyForPlanning :: bool
  readyForImplementation :: bool

record Decision =
  allowed :: bool
  reason :: "string option"
  planItemId :: "string option"

record SasContainerMetadata =
  md_containerId :: string
  md_title :: string
  md_createdAt :: "string option"
  md_scopePaths :: "string list option"
  md_primaryModel :: "string option"
  md_backupModel :: "string option"

section \<open>SasContainerRegistry.ts\<close>

definition FRONTMATTER_DELIMITER :: string where
  "FRONTMATTER_DELIMITER = ''---''"

definition taskClaim :: string where
  "taskClaim = ''## 0. Task-Claim (C_t, E_t)''"

definition mappingLayer :: string where
  "mappingLayer = ''## 1. Mapping Layer for this Container''"

definition mechanics :: string where
  "mechanics = ''## 2. Mechanics & Invariants''"

definition mappingTable :: string where
  "mappingTable = ''## 3. Code Mapping Table''"

definition planHeading :: string where
  "planHeading = ''## 4. Plan State (Agent 2 Output)''"

definition implementation :: string where
  "implementation = ''## 5. Implementation Diffs (Agent 3 Output)''"

definition openQuestions :: string where
  "openQuestions = ''## 6. Open Questions / Indeterminate Regions''"

definition isLowerAlnum :: "char \<Rightarrow> bool" where
  "isLowerAlnum c =
     (let n = (of_char c :: nat) in (97 \<le> n \<and> n \<le> 122) \<or> (48 \<le> n \<and> n \<le> 57))"

text \<open>\<open>replace(/[^a-z0-9]+/g, "-")\<close>: every maximal run of other characters becomes one
  hyphen (the hyphen is written at the last character of the run).\<close>

fun collapseRuns :: "string \<Rightarrow> string" where
  "collapseRuns [] = []"
| "collapseRuns (c # cs) =
     (if isLowerAlnum c then c # collapseRuns cs
      else if cs \<noteq> [] \<and> \<not> isLowerAlnum (hd cs) then collapseRuns cs
      else CHR ''-'' # collapseRuns cs)"

text \<open>
  \<open>replace(/(^-|-$)+/g, "")\<close>: a hyphen at the start and a hyphen at the end go. After
  \<open>collapseRuns\<close> no two hyphens are adjacent, so the repetition matches one hyphen
  at a time.
\<close>

definition stripHyphens :: "string \<Rightarrow> string" where
  "stripHyphens s =
     (let s1 = (if startsWith s ''-'' then drop 1 s else s)
      in if endsWith s1 ''-'' then butlast s1 else s1)"

definition sanitizeContainerId :: "string \<Rightarrow> string" where
  "sanitizeContainerId rawId =
     (let trimmed = toLowerCase (trim rawId);
          normalized = stripHyphens (collapseRuns trimmed)
      in if normalized = [] then ''task'' else normalized)"

text \<open>\<open>replace(/"/g, '\\"')\<close>: a backslash before every double quote.\<close>

fun escapeQuotes :: "string \<Rightarrow> string" where
  "escapeQuotes [] = []"
| "escapeQuotes (c # cs) =
     (if c = CHR 0x22 then CHR 0x5C # CHR 0x22 # escapeQuotes cs else c # escapeQuotes cs)"

text \<open>
  \<open>now\<close> is what \<open>new Date().toISOString()\<close> returns when \<open>createdAt\<close> is absent.
\<close>

definition buildFrontmatter :: "string \<Rightarrow> SasContainerMetadata \<Rightarrow> string" where
  "buildFrontmatter now metadata =
     (let createdAt = (case md_createdAt metadata of Some t \<Rightarrow> t | None \<Rightarrow> now);
          scopePaths = (case md_scopePaths metadata of
                          Some ps \<Rightarrow> (if ps \<noteq> [] then ps else [''.''])
                        | None \<Rightarrow> [''.'']);
          primaryModel = (case md_primaryModel metadata of Some m \<Rightarrow> m | None \<Rightarrow> ''gpt-5.1-thinking'');
          backupModel = (case md_backupModel metadata of Some m \<Rightarrow> m | None \<Rightarrow> ''gpt-4.1'');
          yamlLines =
            [FRONTMATTER_DELIMITER,
             ''container_id: '' @ sanitizeContainerId (md_containerId metadata),
             ''title: '' @ [CHR 0x22] @ escapeQuotes (md_title metadata) @ [CHR 0x22],
             ''created_at: '' @ [CHR 0x22] @ createdAt @ [CHR 0x22],
             ''version: 1'',
             ''status: '' @ [CHR 0x22] @ ''active'' @ [CHR 0x22],
             ''scope:'',
             ''  paths:'']
            @ map (\<lambda>scopePath. ''    - '' @ [CHR 0x22] @ scopePath @ [CHR 0x22]) scopePaths
            @ [''  tests: []'',
               ''models:'',
               ''  primary: '' @ [CHR 0x22] @ primaryModel @ [CHR 0x22],
               ''  backup: '' @ [CHR 0x22] @ backupModel @ [CHR 0x22],
               FRONTMATTER_DELIMITER]
      in joinWith [CHR 0x0A] yamlLines)"

definition buildInitialTemplate ::
  "string \<Rightarrow> SasContainerMetadata \<Rightarrow> string option \<Rightarrow> string" where
  "buildInitialTemplate now metadata initialTask =
     (let frontmatter = buildFrontmatter now metadata;
          description = (case initialTask of Some t \<Rightarrow> trim t | None \<Rightarrow> ''Pending user intent'')
      in joinWith [CHR 0x0A]
           [frontmatter,
            '''',
            taskClaim,
            ''- User intent: '' @ description,
            ''- Task claim: Pending determinacy mapping.'',
            '''',
            mappingLayer,
            ''- Entities: _'',
            ''- Attributes: _'',
            ''- Relations: _'',
            ''- Constraints: _'',
            '''',
            mechanics,
            ''- Invariants: _'',
            '''',
            mappingTable,
            ''| ID | Concept | File:Line(s) | Kind | Status |'',
            ''| -- | -------- | ------------- | ---- | ------ |'',
            ''| M1 | pending | pending | pending | unknown |'',
            '''',
            planHeading,
            ''- [ ] Pending plan items'',
            '''',
            implementation,
            ''- No implementation actions recorded yet.'',
            '''',
            openQuestions,
            ''- None recorded.'',
            ''''])"

section \<open>Storage and clock\<close>

text \<open>
  The file system is an external collaborator. \<open>files\<close> maps a path to the content of the
  file there. A storage call (\<open>fs.mkdir\<close>, \<open>fs.readFile\<close>, \<open>fs.writeFile\<close>) can throw:
  \<open>faults\<close> says for the \<open>n\<close>-th call of a run whether it throws, and \<open>tick\<close> counts the
  calls made so far. A call that throws changes no file; reading a path with no file
  throws. \<open>clock\<close> is the text \<open>new Date().toISOString()\<close> returns.
\<close>

datatype error = StorageError

record World =
  files :: "string \<rightharpoonup> string"
  faults :: "nat \<Rightarrow> bool"
  tick :: nat
  clock :: string

definition storageCall :: "World \<Rightarrow> bool \<times> World" where
  "storageCall w = (faults w (tick w), w\<lparr>tick := Suc (tick w)\<rparr>)"

definition readFile :: "string \<Rightarrow> World \<Rightarrow> (error + string) \<times> World" where
  "readFile p w =
     (let (failed, w1) = storageCall w
      in if failed then (Inl StorageError, w1)
         else (case files w1 p of
                 None \<Rightarrow> (Inl StorageError, w1)
               | Some content \<Rightarrow> (Inr content, w1)))"

definition writeFile :: "string \<Rightarrow> string \<Rightarrow> World \<Rightarrow> (error + unit) \<times> World" where
  "writeFile p content w =
     (let (failed, w1) = storageCall w
      in if failed then (Inl StorageError, w1)
         else (Inr (), w1\<lparr>files := (files w1)(p \<mapsto> content)\<rparr>))"

definition mkdir :: "World \<Rightarrow> (error + unit) \<times> World" where
  "mkdir w =
     (let (failed, w1) = storageCall w
      in if failed then (Inl StorageError, w1) else (Inr (), w1))"

text \<open>
  Modelled from the spec: \<open>fileExistsAtPath\<close> of \<open>@/utils/fs\<close> is not among the sources.
  The spec's "if a file already exists at the derived path": the test is whether a file
  is there, and it does not throw.
\<close>

definition fileExistsAtPath :: "string \<Rightarrow> World \<Rightarrow> bool" where
  "fileExistsAtPath p w = (files w p \<noteq> None)"

text \<open>
  \<open>path.join\<close> and \<open>path.basename\<close> of Node, for segments that need no normalisation:
  the segments joined by a slash, and the text after the last slash.
\<close>

definition pathJoin :: "string list \<Rightarrow> string" where
  "pathJoin segments = joinWith ''/'' segments"

definition basename :: "string \<Rightarrow> string" where
  "basename p = rev (takeWhile (\<lambda>c. c \<noteq> CHR ''/'') (rev p))"

definition ensureContainerDirectory :: "string \<Rightarrow> World \<Rightarrow> (error + string) \<times> World" where
  "ensureContainerDirectory wsRoot w =
     (let containerDir = pathJoin [wsRoot, ''sas'', ''containers''];
          (r, w1) = mkdir w
      in (case r of Inl e \<Rightarrow> (Inl e, w1) | Inr u \<Rightarrow> (Inr containerDir, w1)))"

text \<open>The path \<open>ensureSpecFile\<close> derives for a container.\<close>

definition specPathOf :: "string \<Rightarrow> SasContainerMetadata \<Rightarrow> string" where
  "specPathOf wsRoot metadata =
     pathJoin [pathJoin [wsRoot, ''sas'', ''containers''],
               sanitizeContainerId (md_containerId metadata) @ ''.sas.md'']"

text \<open>
  \<open>ensureSpecFile\<close>: the whole body is inside \<open>try\<close>; the \<open>catch\<close> returns \<open>undefined\<close>
  (\<open>None\<close>).
\<close>

definition ensureSpecFile ::
  "string \<Rightarrow> SasContainerMetadata \<Rightarrow> string option \<Rightarrow> World \<Rightarrow> string option \<times> World" where
  "ensureSpecFile wsRoot metadata initialTask w =
     (case ensureContainerDirectory wsRoot w of
        (Inl e, w1) \<Rightarrow> (None, w1)
      | (Inr containerDir, w1) \<Rightarrow>
          (let sanitizedId = sanitizeContainerId (md_containerId metadata);
               specPath = pathJoin [containerDir, sanitizedId @ ''.sas.md'']
           in if \<not> fileExistsAtPath specPath w1
              then (let content = buildInitialTemplate (clock w1) metadata initialTask
                    in (case writeFile specPath content w1 of
                          (Inl e, w2) \<Rightarrow> (None, w2)
                        | (Inr u, w2) \<Rightarrow> (Some specPath, w2)))
              else (Some specPath, w1)))"

section \<open>The orchestrator: section store\<close>

record SasOrchestrator =
  workspaceRoot :: string
  containerId :: string
  title :: string
  initialTask :: "string option"
  scopePaths :: "string list option"
  specPath :: "string option"
  currentPhase :: "SasAgentPhase option"

definition ensureInitialized ::
  "SasOrchestrator \<Rightarrow> World \<Rightarrow> string option \<times> SasOrchestrator \<times> World" where
  "ensureInitialized orc w =
     (case specPath orc of
        Some p \<Rightarrow> (Some p, orc, w)
      | None \<Rightarrow>
          (let metadata = \<lparr>md_containerId = containerId orc, md_title = title orc,
                            md_createdAt = None, md_scopePaths = scopePaths orc,
                            md_primaryModel = None, md_backupModel = None\<rparr>;
               (p, w1) = ensureSpecFile (workspaceRoot orc) metadata (initialTask orc) w
           in (p, orc\<lparr>specPath := p\<rparr>, w1)))"

text \<open>\<open>this.specPath ?? (await this.ensureInitialized())\<close>, the first line of every private helper.\<close>

definition resolveSpecPath ::
  "SasOrchestrator \<Rightarrow> World \<Rightarrow> string option \<times> SasOrchestrator \<times> World" where
  "resolveSpecPath orc w =
     (case specPath orc of Some p \<Rightarrow> (Some p, orc, w) | None \<Rightarrow> ensureInitialized orc w)"

text \<open>
  The text \<open>appendToSection\<close> writes, computed from the text it read (the body of its
  \<open>try\<close> between \<open>readFile\<close> and \<open>writeFile\<close>).
\<close>

definition appendedContent :: "string \<Rightarrow> string \<Rightarrow> string \<Rightarrow> string" where
  "appendedContent content sectionHeading entry =
     (case indexOf content sectionHeading 0 of
        None \<Rightarrow>
          trimEnd content @ ''\<newline>\<newline>'' @ sectionHeading @ ''\<newline>'' @ entry @ ''\<newline>''
      | Some headingIndex \<Rightarrow>
          (let nextHeadingIndex =
                 indexOf content ''\<newline>## '' (headingIndex + length sectionHeading);
               sectionStart = indexOf content ''\<newline>'' (headingIndex + length sectionHeading);
               bodyStart = (case sectionStart of
                              None \<Rightarrow> headingIndex + length sectionHeading
                            | Some i \<Rightarrow> i + 1);
               bodyEnd = (case nextHeadingIndex of None \<Rightarrow> length content | Some i \<Rightarrow> i);
               before = slice content 0 bodyStart;
               existingBody = trimEnd (slice content bodyStart bodyEnd);
               after = drop bodyEnd content;
               newBody = (if existingBody \<noteq> [] then existingBody @ ''\<newline>'' @ entry else entry)
           in before @ newBody @ ''\<newline>\<newline>'' @ trimStart after))"

definition appendToSection ::
  "string \<Rightarrow> string \<Rightarrow> SasOrchestrator \<Rightarrow> World \<Rightarrow> SasOrchestrator \<times> World" where
  "appendToSection sectionHeading entry orc w =
     (case resolveSpecPath orc w of
        (None, orc1, w1) \<Rightarrow> (orc1, w1)
      | (Some p, orc1, w1) \<Rightarrow>
          (case readFile p w1 of
             (Inl e, w2) \<Rightarrow> (orc1, w2)
           | (Inr content, w2) \<Rightarrow>
               (orc1, snd (writeFile p (appendedContent content sectionHeading entry) w2))))"

text \<open>The text \<open>replaceSectionBody\<close> writes, computed from the text it read.\<close>

definition replacedContent :: "string \<Rightarrow> string \<Rightarrow> string \<Rightarrow> string" where
  "replacedContent content sectionHeading newBody =
     (case indexOf content sectionHeading 0 of
        None \<Rightarrow>
          trimEnd content @ ''\<newline>\<newline>'' @ sectionHeading @ ''\<newline>'' @ trim newBody @ ''\<newline>''
      | Some headingIndex \<Rightarrow>
          (let nextHeadingIndex =
                 indexOf content ''\<newline>## '' (headingIndex + length sectionHeading);
               sectionStart = indexOf content ''\<newline>'' (headingIndex + length sectionHeading);
               bodyStart = (case sectionStart of
                              None \<Rightarrow> headingIndex + length sectionHeading
                            | Some i \<Rightarrow> i + 1);
               bodyEnd = (case nextHeadingIndex of None \<Rightarrow> length content | Some i \<Rightarrow> i);
               before = slice content 0 bodyStart;
               after = drop bodyEnd content
           in before @ trim newBody @ ''\<newline>\<newline>'' @ trimStart after))"

definition replaceSectionBody ::
  "string \<Rightarrow> string \<Rightarrow> SasOrchestrator \<Rightarrow> World \<Rightarrow> SasOrchestrator \<times> World" where
  "replaceSectionBody sectionHeading newBody orc w =
     (case resolveSpecPath orc w of
        (None, orc1, w1) \<Rightarrow> (orc1, w1)
      | (Some p, orc1, w1) \<Rightarrow>
          (case readFile p w1 of
             (Inl e, w2) \<Rightarrow> (orc1, w2)
           | (Inr content, w2) \<Rightarrow>
               (orc1, snd (writeFile p (replacedContent content sectionHeading newBody) w2))))"

text \<open>
  The slice the three readers take: from the first occurrence of the heading to the next
  \<open>"\n## "\<close> after it, or to the end. \<open>None\<close> when the heading does not occur.
\<close>

definition sectionSlice :: "string \<Rightarrow> string \<Rightarrow> string option" where
  "sectionSlice content heading =
     (case indexOf content heading 0 of
        None \<Rightarrow> None
      | Some headingIndex \<Rightarrow>
          (case indexOf content ''\<newline>## '' (headingIndex + length heading) of
             None \<Rightarrow> Some (drop headingIndex content)
           | Some nextHeadingIndex \<Rightarrow> Some (slice content headingIndex nextHeadingIndex)))"

definition mappingLayerMeaningful :: "string \<Rightarrow> bool" where
  "mappingLayerMeaningful content =
     (case sectionSlice content mappingLayer of
        None \<Rightarrow> False
      | Some body \<Rightarrow>
          list_ex (\<lambda>line. line \<noteq> [] \<and> \<not> includesStr line ''pending'' \<and> \<not> endsWith line '': _'')
            (map trim (splitLines body)))"

definition hasMappingLayer :: "SasOrchestrator \<Rightarrow> World \<Rightarrow> bool \<times> SasOrchestrator \<times> World" where
  "hasMappingLayer orc w =
     (case resolveSpecPath orc w of
        (None, orc1, w1) \<Rightarrow> (False, orc1, w1)
      | (Some p, orc1, w1) \<Rightarrow>
          (case readFile p w1 of
             (Inl e, w2) \<Rightarrow> (False, orc1, w2)
           | (Inr content, w2) \<Rightarrow> (mappingLayerMeaningful content, orc1, w2)))"

section \<open>The orchestrator: list codecs\<close>

text \<open>
  The plan pattern \<open>/^- \[( |x)\]\s*(.+)$/i\<close> on a trimmed line. After \<open>"- ["\<close>, one of
  space, \<open>x\<close>, \<open>X\<close>, and \<open>"]"\<close>, the greedy \<open>\s*\<close> takes all white space; \<open>(.+)$\<close> then
  needs the rest to be non-empty and free of line terminators. Giving white space back
  to \<open>(.+)\<close> only lengthens what must be free of line terminators, so backtracking finds
  no other match. The result is group 1 and group 2.
\<close>

definition matchPlanLine :: "string \<Rightarrow> (char \<times> string) option" where
  "matchPlanLine t =
     (if startsWith t ''- ['' \<and> 5 \<le> length t
         \<and> t ! 3 \<in> set [CHR '' '', CHR ''x'', CHR ''X''] \<and> t ! 4 = CHR '']''
      then (let text = dropWhile isWhiteSpace (drop 5 t)
            in if text \<noteq> [] \<and> \<not> list_ex isLineTerminator text
               then Some (t ! 3, text) else None)
      else None)"

text \<open>
  The loop of \<open>readPlanItems\<close> over \<open>body.split("\n").entries()\<close>; \<open>index\<close> is the
  position of the line in the slice, whose line 0 is the heading line.
\<close>

fun planItemsOfLines :: "nat \<Rightarrow> string list \<Rightarrow> SasPlanItem list" where
  "planItemsOfLines index [] = []"
| "planItemsOfLines index (line # rest) =
     (case matchPlanLine (trim line) of
        None \<Rightarrow> planItemsOfLines (Suc index) rest
      | Some (mark, text) \<Rightarrow>
          \<lparr>itemId = ''S'' @ string_of_nat (index + 1), itemText = text,
           itemStatus = (if lowerChar mark = CHR ''x'' then Done else Todo)\<rparr>
          # planItemsOfLines (Suc index) rest)"

definition planItemsOfContent :: "string \<Rightarrow> SasPlanItem list" where
  "planItemsOfContent content =
     (case sectionSlice content planHeading of
        None \<Rightarrow> []
      | Some body \<Rightarrow> planItemsOfLines 0 (splitLines body))"

definition readPlanItems ::
  "SasOrchestrator \<Rightarrow> World \<Rightarrow> SasPlanItem list \<times> SasOrchestrator \<times> World" where
  "readPlanItems orc w =
     (case resolveSpecPath orc w of
        (None, orc1, w1) \<Rightarrow> ([], orc1, w1)
      | (Some p, orc1, w1) \<Rightarrow>
          (case readFile p w1 of
             (Inl e, w2) \<Rightarrow> ([], orc1, w2)
           | (Inr content, w2) \<Rightarrow> (planItemsOfContent content, orc1, w2)))"

text \<open>
  The invariant pattern \<open>/^- \[(satisfied|violated|unknown)\]\s*(.+)$/i\<close> on a trimmed
  line. Under the flag \<open>i\<close> a letter of the pattern matches its two ASCII cases only.
  The result is the status \<open>match[1].toLowerCase()\<close> names, and group 2.
\<close>

definition matchTag :: "string \<Rightarrow> (SasInvariantStatus \<times> string) option" where
  "matchTag r =
     (if toLowerCase (take 9 r) = ''satisfied'' then Some (Satisfied, drop 9 r)
      else if toLowerCase (take 8 r) = ''violated'' then Some (Violated, drop 8 r)
      else if toLowerCase (take 7 r) = ''unknown'' then Some (Unknown, drop 7 r)
      else None)"

definition matchInvariantLine :: "string \<Rightarrow> (SasInvariantStatus \<times> string) option" where
  "matchInvariantLine t =
     (if startsWith t ''- [''
      then (case matchTag (drop 3 t) of
              None \<Rightarrow> None
            | Some (st, r) \<Rightarrow>
                (if startsWith r '']'' \<and> r \<noteq> []
                 then (let text = dropWhile isWhiteSpace (drop 1 r)
                       in if text \<noteq> [] \<and> \<not> list_ex isLineTerminator text
                          then Some (st, text) else None)
                 else None))
      else None)"

text \<open>\<open>trimmed.replace(/^-\s*/, "")\<close>.\<close>

definition stripDash :: "string \<Rightarrow> string" where
  "stripDash t = (if startsWith t ''-'' \<and> t \<noteq> [] then dropWhile isWhiteSpace (drop 1 t) else t)"

fun invariantsOfLines :: "nat \<Rightarrow> string list \<Rightarrow> SasInvariant list" where
  "invariantsOfLines index [] = []"
| "invariantsOfLines index (line # rest) =
     (let trimmed = trim line
      in if trimmed = [] \<or> startsWith trimmed ''##''
         then invariantsOfLines (Suc index) rest
         else (case matchInvariantLine trimmed of
                 Some (st, text) \<Rightarrow>
                   \<lparr>invId = ''I'' @ string_of_nat (index + 1), description = text,
                    invStatus = st\<rparr>
                   # invariantsOfLines (Suc index) rest
               | None \<Rightarrow>
                   (if \<not> endsWith trimmed '': _'' \<and> \<not> includesStr trimmed ''pending''
                    then \<lparr>invId = ''I'' @ string_of_nat (index + 1),
                          description = stripDash trimmed, invStatus = Unknown\<rparr>
                         # invariantsOfLines (Suc index) rest
                    else invariantsOfLines (Suc index) rest)))"

definition invariantsOfContent :: "string \<Rightarrow> SasInvariant list" where
  "invariantsOfContent content =
     (case sectionSlice content mechanics of
        None \<Rightarrow> []
      | Some body \<Rightarrow> invariantsOfLines 0 (splitLines body))"

definition readInvariants ::
  "SasOrchestrator \<Rightarrow> World \<Rightarrow> SasInvariant list \<times> SasOrchestrator \<times> World" where
  "readInvariants orc w =
     (case resolveSpecPath orc w of
        (None, orc1, w1) \<Rightarrow> ([], orc1, w1)
      | (Some p, orc1, w1) \<Rightarrow>
          (case readFile p w1 of
             (Inl e, w2) \<Rightarrow> ([], orc1, w2)
           | (Inr content, w2) \<Rightarrow> (invariantsOfContent content, orc1, w2)))"

definition statusTag :: "SasInvariantStatus \<Rightarrow> string" where
  "statusTag st = (case st of Satisfied \<Rightarrow> ''satisfied'' | Violated \<Rightarrow> ''violated'' | Unknown \<Rightarrow> ''unknown'')"

definition invariantLine :: "SasInvariant \<Rightarrow> string" where
  "invariantLine invt = ''- ['' @ statusTag (invStatus invt) @ ''] '' @ description invt"

definition writeInvariants ::
  "SasInvariant list \<Rightarrow> SasOrchestrator \<Rightarrow> World \<Rightarrow> SasOrchestrator \<times> World" where
  "writeInvariants invs orc w =
     (if invs = [] then replaceSectionBody mechanics ''- Invariants: _'' orc w
      else replaceSectionBody mechanics (joinWith ''\<newline>'' (map invariantLine invs)) orc w)"

definition planLine :: "SasPlanItem \<Rightarrow> string" where
  "planLine item = ''- ['' @ (if itemStatus item = Done then ''x'' else '' '') @ ''] '' @ itemText item"

definition writePlanItemsFromList ::
  "SasPlanItem list \<Rightarrow> SasOrchestrator \<Rightarrow> World \<Rightarrow> SasOrchestrator \<times> World" where
  "writePlanItemsFromList items orc w =
     (if items = [] then replaceSectionBody planHeading ''- [ ] Pending plan items'' orc w
      else replaceSectionBody planHeading (joinWith ''\<newline>'' (map planLine items)) orc w)"

section \<open>The orchestrator: phase tracker, evaluator, gate\<close>

definition formatPhase :: "SasAgentPhase \<Rightarrow> string" where
  "formatPhase phase =
     (if phase = Instantiator then ''A1 Instantiator''
      else if phase = Planner then ''A2 Planner''
      else ''A3 Implementer'')"

text \<open>
  The dash of the phase log line. The source literal is outside the range of the model's
  code units; it stands here as the three bytes of the dash U+2014 in UTF-8, none of
  them white space, a line feed or a hash sign.
\<close>

definition phaseDash :: string where
  "phaseDash = [CHR 0xE2, CHR 0x80, CHR 0x94]"

text \<open>\<open>reason\<close> is truthy when it is given and not empty.\<close>

definition setPhase ::
  "SasAgentPhase \<Rightarrow> string option \<Rightarrow> SasOrchestrator \<Rightarrow> World \<Rightarrow> SasOrchestrator \<times> World" where
  "setPhase phase reasonText orc w =
     (case ensureInitialized orc w of
        (sp, orc1, w1) \<Rightarrow>
          (let given = (case reasonText of None \<Rightarrow> False | Some r \<Rightarrow> r \<noteq> [])
           in if currentPhase orc1 = Some phase \<and> \<not> given then (orc1, w1)
              else (let orc2 = orc1\<lparr>currentPhase := Some phase\<rparr>;
                        entryReason = (if given then '' '' @ phaseDash @ '' '' @ the reasonText else [])  ;
                        entry = ''- [Loop '' @ formatPhase phase @ ''] '' @ clock w1 @ entryReason
                    in appendToSection taskClaim entry orc2 w1)))"

definition recordImplementationUpdate ::
  "string \<Rightarrow> string option \<Rightarrow> SasOrchestrator \<Rightarrow> World \<Rightarrow> SasOrchestrator \<times> World" where
  "recordImplementationUpdate kind text orc w =
     (case ensureInitialized orc w of
        (sp, orc1, w1) \<Rightarrow>
          (case setPhase Implementer (Some ''Implementer acted on plan'') orc1 w1 of
             (orc2, w2) \<Rightarrow>
               (let details = (case text of
                                 None \<Rightarrow> ''(no details provided)''
                               | Some t \<Rightarrow> (if t \<noteq> [] then t else ''(no details provided)''));
                    entry = ''- [A3 Implementer:'' @ kind @ ''] @ '' @ clock w2 @ '': '' @ details
                in appendToSection implementation entry orc2 w2)))"

definition getDeterminacyState ::
  "SasOrchestrator \<Rightarrow> World \<Rightarrow> SasDeterminacyState \<times> SasOrchestrator \<times> World" where
  "getDeterminacyState orc w =
     (case ensureInitialized orc w of
        (sp, orc1, w1) \<Rightarrow>
     (case readInvariants orc1 w1 of
        (invs, orc2, w2) \<Rightarrow>
     (case readPlanItems orc2 w2 of
        (items, orc3, w3) \<Rightarrow>
          (let satisfied = length (filter (\<lambda>invt. invStatus invt = Satisfied) invs);
               total = (if length invs = 0 then 1 else length invs);
               d = max 0 (min 1 (rat_of_nat satisfied / rat_of_nat total))
           in (case hasMappingLayer orc3 w3 of
                 (mappingReady, orc4, w4) \<Rightarrow>
                   (let forPlanning = (mappingReady \<and> length invs > 0);
                        hasKnownInvariant = list_ex (\<lambda>invt. invStatus invt \<noteq> Unknown) invs;
                        forImplementation =
                          (list_ex (\<lambda>item. itemStatus item = Todo) items
                           \<and> (d \<ge> 1 / 2 \<or> \<not> hasKnownInvariant))
                    in (\<lparr>determinacy = d, invariants = invs, plan = items,
                         readyForPlanning = forPlanning,
                         readyForImplementation = forImplementation\<rparr>, orc4, w4)))))))"

definition validatePlannedToolExecution ::
  "string \<Rightarrow> SasOrchestrator \<Rightarrow> World \<Rightarrow> Decision \<times> SasOrchestrator \<times> World" where
  "validatePlannedToolExecution toolName orc w =
     (case getDeterminacyState orc w of
        (state, orc1, w1) \<Rightarrow>
          (if currentPhase orc1 \<noteq> Some Implementer
           then (\<lparr>allowed = False,
                  reason = Some ''SAS is not in implementer phase; plan steps must be approved first.'',
                  planItemId = None\<rparr>, orc1, w1)
           else if \<not> readyForImplementation state
           then (\<lparr>allowed = False,
                  reason = Some ''Determinacy too low or no open plan items to execute.'',
                  planItemId = None\<rparr>, orc1, w1)
           else (let normalizedTool = toLowerCase toolName
                 in (case find (\<lambda>item. itemStatus item = Todo
                                  \<and> includesStr (toLowerCase (itemText item)) normalizedTool)
                            (plan state) of
                       None \<Rightarrow>
                         (\<lparr>allowed = False,
                           reason = Some ''Tool request is not mapped to any open plan step.'',
                           planItemId = None\<rparr>, orc1, w1)
                     | Some matching \<Rightarrow>
                         (\<lparr>allowed = True, reason = None,
                           planItemId = Some (itemId matching)\<rparr>, orc1, w1)))))"

definition markPlanStepComplete ::
  "string \<Rightarrow> string option \<Rightarrow> SasOrchestrator \<Rightarrow> World \<Rightarrow> SasOrchestrator \<times> World" where
  "markPlanStepComplete stepId note orc w =
     (case ensureInitialized orc w of
        (sp, orc1, w1) \<Rightarrow>
     (case readPlanItems orc1 w1 of
        (planItems, orc2, w2) \<Rightarrow>
          (let updated = map (\<lambda>item. if itemId item = stepId then item\<lparr>itemStatus := Done\<rparr> else item)
                           planItems
           in (case writePlanItemsFromList updated orc2 w2 of
                 (orc3, w3) \<Rightarrow>
     (case readInvariants orc3 w3 of
        (invs, orc4, w4) \<Rightarrow>
          (case (if invs \<noteq> []
                 then (case findIndex (\<lambda>invt. invStatus invt = Unknown) invs of
                         None \<Rightarrow> (orc4, w4)
                       | Some nextUnknownIndex \<Rightarrow>
                           writeInvariants
                             (invs[nextUnknownIndex := (invs ! nextUnknownIndex)\<lparr>invStatus := Satisfied\<rparr>])
                             orc4 w4)
                 else (orc4, w4)) of
             (orc5, w5) \<Rightarrow>
               (let summary = (case note of
                                 None \<Rightarrow> ''Completed plan step '' @ stepId
                               | Some n \<Rightarrow> (if n \<noteq> [] then stepId @ '': '' @ n
                                           else ''Completed plan step '' @ stepId))
                in recordImplementationUpdate ''plan_step'' (Some summary) orc5 w5)))))))"

section \<open>The orchestrator: recording operations and prompt context\<close>

record Attachments =
  att_files :: "string list option"
  att_images :: "string list option"

definition formatAttachments :: "Attachments option \<Rightarrow> string" where
  "formatAttachments attachments =
     (let fileList = (case attachments of
                        None \<Rightarrow> []
                      | Some a \<Rightarrow> (case att_files a of None \<Rightarrow> [] | Some fs \<Rightarrow> fs));
          imageList = (case attachments of
                         None \<Rightarrow> []
                       | Some a \<Rightarrow> (case att_images a of None \<Rightarrow> [] | Some is \<Rightarrow> is))
      in if fileList = [] \<and> imageList = [] then []
         else (let fileSegment = (if fileList \<noteq> [] then '' | files: '' @ joinWith '', '' fileList else []);
                   imageSegment = (if imageList \<noteq> [] then '' | images: '' @ joinWith '', '' imageList else [])
               in fileSegment @ imageSegment))"

definition recordUserIntent ::
  "string \<Rightarrow> Attachments option \<Rightarrow> SasOrchestrator \<Rightarrow> World \<Rightarrow> SasOrchestrator \<times> World" where
  "recordUserIntent intent attachments orc w =
     (case ensureInitialized orc w of
        (sp, orc1, w1) \<Rightarrow>
          (case setPhase Instantiator (Some ''Captured user intent'') orc1 w1 of
             (orc2, w2) \<Rightarrow>
               (let attachmentText = formatAttachments attachments;
                    entry = ''- [A1 Instantiator] @ '' @ clock w2 @ '': ''
                            @ (if intent \<noteq> [] then intent else ''(no task text)'') @ attachmentText
                in appendToSection taskClaim entry orc2 w2)))"

text \<open>\<open>line.replace(/^\s*-\s*\[[^\]]*\]\s*/, "")\<close>: the text unchanged when the pattern does not match.\<close>

definition stripCheckbox :: "string \<Rightarrow> string" where
  "stripCheckbox line =
     (let s1 = dropWhile isWhiteSpace line
      in if startsWith s1 ''-'' \<and> s1 \<noteq> []
         then (let s2 = dropWhile isWhiteSpace (drop 1 s1)
               in if startsWith s2 ''['' \<and> s2 \<noteq> []
                  then (let s3 = dropWhile (\<lambda>c. c \<noteq> CHR '']'') (drop 1 s2)
                        in if s3 \<noteq> [] then dropWhile isWhiteSpace (drop 1 s3) else line)
                  else line)
         else line)"

text \<open>The ids \<open>I1, I2, ...\<close> of the seeds are those of \<open>bullets.map((line, index) => ...)\<close>.\<close>

fun seedInvariantsFrom :: "nat \<Rightarrow> string list \<Rightarrow> SasInvariant list" where
  "seedInvariantsFrom index [] = []"
| "seedInvariantsFrom index (line # rest) =
     \<lparr>invId = ''I'' @ string_of_nat (index + 1),
      description = ''Plan alignment: '' @ stripCheckbox line,
      invStatus = Unknown\<rparr> # seedInvariantsFrom (Suc index) rest"

definition writePlanItems ::
  "string option \<Rightarrow> SasOrchestrator \<Rightarrow> World \<Rightarrow> SasOrchestrator \<times> World" where
  "writePlanItems planText orc w =
     (case (case planText of None \<Rightarrow> None | Some t \<Rightarrow> (if t = [] then None else Some t)) of
        None \<Rightarrow>
          appendToSection planHeading
            (''- [A2 Planner] @ '' @ clock w @ '': (no plan text provided)'') orc w
      | Some t \<Rightarrow>
          (let lines = filter (\<lambda>line. line \<noteq> []) (map trim (splitLines t));
               bullets = map (\<lambda>line. ''- [ ] '' @ line) lines;
               body = (if bullets \<noteq> [] then joinWith ''\<newline>'' bullets else ''- [ ] '' @ trim t)
           in (case replaceSectionBody planHeading body orc w of
                 (orc1, w1) \<Rightarrow>
                   (case readInvariants orc1 w1 of
                      (invs, orc2, w2) \<Rightarrow>
                        (if invs = [] \<and> bullets \<noteq> []
                         then writeInvariants (seedInvariantsFrom 0 bullets) orc2 w2
                         else (orc2, w2))))))"

definition recordPlanUpdate ::
  "string option \<Rightarrow> SasOrchestrator \<Rightarrow> World \<Rightarrow> SasOrchestrator \<times> World" where
  "recordPlanUpdate planText orc w =
     (case ensureInitialized orc w of
        (sp, orc1, w1) \<Rightarrow>
          (case setPhase Planner (Some ''Planner produced an update'') orc1 w1 of
             (orc2, w2) \<Rightarrow> writePlanItems planText orc2 w2))"

definition recordOpenQuestion ::
  "string \<Rightarrow> SasOrchestrator \<Rightarrow> World \<Rightarrow> SasOrchestrator \<times> World" where
  "recordOpenQuestion note orc w =
     (case ensureInitialized orc w of
        (sp, orc1, w1) \<Rightarrow>
          (case setPhase Instantiator (Some ''Raised an open question'') orc1 w1 of
             (orc2, w2) \<Rightarrow>
               appendToSection openQuestions (''- '' @ clock w2 @ '': '' @ note) orc2 w2))"

record SayEvent =
  ev_type :: string
  ev_text :: "string option"
  ev_partial :: "bool option"

definition implementationTypes :: "string list" where
  "implementationTypes =
     [''command'', ''command_output'', ''tool'', ''checkpoint_created'', ''user_feedback_diff'',
      ''hook_output'', ''api_req_finished'', ''api_req_started'', ''completion_result'']"

definition recordSayEvent ::
  "SayEvent \<Rightarrow> SasOrchestrator \<Rightarrow> World \<Rightarrow> SasOrchestrator \<times> World" where
  "recordSayEvent event orc w =
     (if ev_partial event = Some True then (orc, w)
      else (let type = ev_type event; text = ev_text event
            in if type = ''task''
               then recordUserIntent (case text of None \<Rightarrow> ''(no task text provided)'' | Some t \<Rightarrow> t)
                      None orc w
               else if type = ''reasoning'' \<or> type = ''generate_explanation'' \<or> type = ''task_progress''
               then recordPlanUpdate text orc w
               else if type = ''error'' \<or> type = ''clineignore_error''
               then recordOpenQuestion (case text of None \<Rightarrow> ''Error emitted by task'' | Some t \<Rightarrow> t)
                      orc w
               else if type \<in> set implementationTypes
               then recordImplementationUpdate type text orc w
               else (orc, w)))"

definition getSpecInstructions ::
  "nat \<Rightarrow> SasOrchestrator \<Rightarrow> World \<Rightarrow> string option \<times> SasOrchestrator \<times> World" where
  "getSpecInstructions maxChars orc w =
     (case ensureInitialized orc w of
        (sp, orc1, w1) \<Rightarrow>
          (case specPath orc1 of
             None \<Rightarrow> (None, orc1, w1)
           | Some p \<Rightarrow>
               (case readFile p w1 of
                  (Inl e, w2) \<Rightarrow> (None, orc1, w2)
                | (Inr content, w2) \<Rightarrow>
                    (let trimmed = trim content;
                         truncated = (if length trimmed > maxChars
                                      then slice trimmed 0 maxChars @ ''\<newline>... (truncated)''
                                      else trimmed);
                         fileLabel = basename p;
                         scopeText = (case scopePaths orc1 of
                                        None \<Rightarrow> ''.''
                                      | Some ps \<Rightarrow> (if ps \<noteq> [] then joinWith '', '' ps else ''.''));
                         phaseLabel = (case currentPhase orc1 of
                                         None \<Rightarrow> ''unspecified''
                                       | Some ph \<Rightarrow> formatPhase ph);
                         sasLoopSummary =
                           ''Operate within the SAS three-agent loop: ''
                           @ ''A1=Instantiator (spec intent), A2=Planner (mapping + plan), A3=Implementer (apply approved diffs).'';
                         scopeSummary = ''Scope paths: '' @ scopeText;
                         phaseSummary = ''Current SAS phase: '' @ phaseLabel
                     in (Some (joinWith ''\<newline>\<newline>''
                                 [''SAS container spec: '' @ fileLabel, sasLoopSummary, scopeSummary,
                                  phaseSummary,
                                  ''Ground planning and execution in this spec (sections 0-6).'',
                                  truncated]), orc1, w2)))))"

section \<open>Example states\<close>

text \<open>An orchestrator whose document path is already known, and a world holding one document there.\<close>

definition exOrc :: SasOrchestrator where
  "exOrc = \<lparr>workspaceRoot = ''/ws'', containerId = ''c'', title = ''T'', initialTask = None,
            scopePaths = None, specPath = Some ''/ws/sas/containers/c.sas.md'', currentPhase = Some Implementer\<rparr>"

definition exWorld :: "string \<Rightarrow> World" where
  "exWorld content = \<lparr>files = [''/ws/sas/containers/c.sas.md'' \<mapsto> content], faults = (\<lambda>n. False), tick = 0, clock = ''2026-01-01T00:00:00.000Z''\<rparr>"

definition exDoc :: string where
  "exDoc = ''## 2. Mechanics & Invariants\<newline>- [unknown] a\<newline>- [unknown] b\<newline>## 4. Plan State (Agent 2 Output)\<newline>- [ ] run lint\<newline>- [x] deploy\<newline>''"

definition exPath :: string where
  "exPath = ''/ws/sas/containers/c.sas.md''"

text \<open>A document of two sections, and one holding nothing but a mapping-layer placeholder.\<close>

definition twoSections :: string where
  "twoSections = ''## A\<newline>x\<newline>## B\<newline>y\<newline>''"

definition placeholderOnly :: string where
  "placeholderOnly = ''## 1. Mapping Layer for this Container\<newline>- Entities: _\<newline>''"

section \<open>Located sections\<close>

text \<open>
  \<open>sectionAt c h P tail M R\<close>: the document \<open>c\<close> is \<open>P\<close>, the heading \<open>h\<close>, the rest
  \<open>tail\<close> of the heading line, the body region \<open>M\<close> (empty, or a line feed and the body
  lines) and the rest \<open>R\<close>, which is empty or begins with the next \<open>"\n## "\<close>. The heading
  has no line feed, does not occur in \<open>P\<close>, and stands at the start of a line.
\<close>

definition sectionAt :: "string \<Rightarrow> string \<Rightarrow> string \<Rightarrow> string \<Rightarrow> string \<Rightarrow> string \<Rightarrow> bool" where
  "sectionAt c h P tail M R =
     (c = P @ h @ tail @ M @ R \<and> h \<noteq> [] \<and> CHR 0x0A \<notin> set h
      \<and> \<not> includesStr P h \<and> (P = [] \<or> last P = CHR 0x0A)
      \<and> CHR 0x0A \<notin> set tail \<and> (M = [] \<or> hd M = CHR 0x0A)
      \<and> \<not> includesStr (tail @ M) ''\<newline>## ''
      \<and> (R = [] \<or> startsWith R ''\<newline>## '') \<and> (M \<noteq> [] \<or> R \<noteq> []))"

section \<open>Runs without storage failure\<close>

text \<open>
  \<open>noFaults w\<close>: no storage call of the run throws. \<open>written w p content\<close> is the world
  after one successful read and one successful write of \<open>content\<close> at \<open>p\<close>.
\<close>

definition noFaults :: "World \<Rightarrow> bool" where
  "noFaults w = (\<forall>n. \<not> faults w n)"

definition written :: "World \<Rightarrow> string \<Rightarrow> string \<Rightarrow> World" where
  "written w p content = w\<lparr>tick := Suc (Suc (tick w)), files := (files w)(p \<mapsto> content)\<rparr>"

section \<open>Runs in which storage fails\<close>

text \<open>
  \<open>storageDown w\<close>: every storage call of the run throws. \<open>untouched w w'\<close>: the run from
  \<open>w\<close> to \<open>w'\<close> changed no file (and the world keeps its fault schedule and clock).
\<close>

definition storageDown :: "World \<Rightarrow> bool" where
  "storageDown w = (\<forall>n. faults w n)"

definition untouched :: "World \<Rightarrow> World \<Rightarrow> bool" where
  "untouched w w' = (files w' = files w \<and> faults w' = faults w \<and> clock w' = clock w)"

text \<open>A world whose storage is down, holding one document.\<close>

definition downWorld :: "string \<Rightarrow> World" where
  "downWorld content =
     \<lparr>files = [''/ws/sas/containers/c.sas.md'' \<mapsto> content], faults = (\<lambda>n. True), tick = 0,
      clock = ''2026-01-01T00:00:00.000Z''\<rparr>"

text \<open>An orchestrator that has not yet resolved its document path.\<close>

definition freshOrc :: "string option \<Rightarrow> SasOrchestrator" where
  "freshOrc task =
     \<lparr>workspaceRoot = ''/ws'', containerId = ''c'', title = ''T'', initialTask = task,
      scopePaths = None, specPath = None, currentPhase = None\<rparr>"

text \<open>A world with no file, and two metadata records naming the same container.\<close>

definition emptyWorld :: World where
  "emptyWorld = \<lparr>files = Map.empty, faults = (\<lambda>n. False), tick = 0,
                  clock = ''2026-01-01T00:00:00.000Z''\<rparr>"



section \<open>Fresh documents\<close>

text \<open>
  The metadata \<open>ensureInitialized\<close> passes to the registry, and the description
  \<open>buildInitialTemplate\<close> writes after \<open>"- User intent: "\<close>.
\<close>

definition orcMetadata :: "SasOrchestrator \<Rightarrow> SasContainerMetadata" where
  "orcMetadata orc =
     \<lparr>md_containerId = containerId orc, md_title = title orc, md_createdAt = None,
      md_scopePaths = scopePaths orc, md_primaryModel = None, md_backupModel = None\<rparr>"

definition templateDescription :: "string option \<Rightarrow> string" where
  "templateDescription task = (case task of Some t \<Rightarrow> trim t | None \<Rightarrow> ''Pending user intent'')"

text \<open>
  \<open>headingsAbsent now md task\<close>: neither the Mechanics heading nor the Plan heading occurs
  in the caller's texts that the template embeds, the frontmatter and the description.
\<close>

definition headingsAbsent :: "string \<Rightarrow> SasContainerMetadata \<Rightarrow> string option \<Rightarrow> bool" where
  "headingsAbsent now md task =
     (\<not> includesStr (buildFrontmatter now md) mechanics
      \<and> \<not> includesStr (buildFrontmatter now md) planHeading
      \<and> \<not> includesStr (templateDescription task) mechanics
      \<and> \<not> includesStr (templateDescription task) planHeading)"

text \<open>
  \<open>freshRun orc w\<close>: the orchestrator has not resolved its path, no file is at the path
  the registry derives, and no storage call throws: the next operation creates the document.
\<close>

definition freshRun :: "SasOrchestrator \<Rightarrow> World \<Rightarrow> bool" where
  "freshRun orc w =
     (specPath orc = None \<and> noFaults w
      \<and> files w (specPathOf (workspaceRoot orc) (orcMetadata orc)) = None)"

text \<open>An initial task that carries the Plan heading and a completed item.\<close>

definition planInTask :: string where
  "planInTask = ''x\<newline>## 4. Plan State (Agent 2 Output)\<newline>- [x] done''"

section \<open>One failing storage call\<close>

text \<open>
  A document with one violated invariant and one open plan item, and a world that holds
  it in which the first storage call of the run throws and every later call succeeds.
\<close>

definition violatedDoc :: string where
  "violatedDoc = ''## 2. Mechanics & Invariants\<newline>- [violated] a\<newline>## 4. Plan State (Agent 2 Output)\<newline>- [ ] run lint\<newline>''"

definition firstCallFails :: "string \<Rightarrow> World" where
  "firstCallFails content =
     \<lparr>files = [''/ws/sas/containers/c.sas.md'' \<mapsto> content], faults = (\<lambda>n. n = 0), tick = 0,
      clock = ''2026-01-01T00:00:00.000Z''\<rparr>"

section \<open>Documents in the template's order\<close>

text \<open>
  A document in which the headings of Task-Claim, Mechanics, Plan and Implementation each
  stand alone on a line, in this order. \<open>preamble\<close> is the text before the first of them,
  each body is the region from the end of its heading line to the next \<open>"\n## "\<close>, each
  gap is the text from there to the next of the four headings (other sections), and
  \<open>trailer\<close> is what follows the Implementation section.
\<close>

record Layout =
  preamble :: string
  taskBody :: string
  gap1 :: string
  mechBody :: string
  gap2 :: string
  planBody :: string
  gap3 :: string
  implBody :: string
  trailer :: string

definition render :: "Layout \<Rightarrow> string" where
  "render L =
     preamble L @ taskClaim @ taskBody L @ gap1 L @ mechanics @ mechBody L @ gap2 L
     @ planHeading @ planBody L @ gap3 L @ implementation @ implBody L @ trailer L"

definition taskAt :: "Layout \<Rightarrow> bool" where
  "taskAt L =
     sectionAt (render L) taskClaim (preamble L) [] (taskBody L)
       (gap1 L @ mechanics @ mechBody L @ gap2 L @ planHeading @ planBody L @ gap3 L
        @ implementation @ implBody L @ trailer L)"

definition mechAt :: "Layout \<Rightarrow> bool" where
  "mechAt L =
     sectionAt (render L) mechanics (preamble L @ taskClaim @ taskBody L @ gap1 L) []
       (mechBody L)
       (gap2 L @ planHeading @ planBody L @ gap3 L @ implementation @ implBody L @ trailer L)"

definition planAt :: "Layout \<Rightarrow> bool" where
  "planAt L =
     sectionAt (render L) planHeading
       (preamble L @ taskClaim @ taskBody L @ gap1 L @ mechanics @ mechBody L @ gap2 L) []
       (planBody L) (gap3 L @ implementation @ implBody L @ trailer L)"

definition implAt :: "Layout \<Rightarrow> bool" where
  "implAt L =
     sectionAt (render L) implementation
       (preamble L @ taskClaim @ taskBody L @ gap1 L @ mechanics @ mechBody L @ gap2 L
        @ planHeading @ planBody L @ gap3 L) []
       (implBody L) (trailer L)"

definition wellFormed :: "Layout \<Rightarrow> bool" where
  "wellFormed L = (taskAt L \<and> mechAt L \<and> planAt L \<and> implAt L)"

text \<open>What a claim about plan items and invariants compares: text and status, not the ids,
  which number the lines of a section and move when it is rewritten.\<close>

definition planView :: "SasPlanItem list \<Rightarrow> (string \<times> SasPlanStatus) list" where
  "planView items = map (\<lambda>item. (itemText item, itemStatus item)) items"

definition invariantView :: "SasInvariant list \<Rightarrow> (string \<times> SasInvariantStatus) list" where
  "invariantView invs = map (\<lambda>invt. (description invt, invStatus invt)) invs"

text \<open>
  \<open>rereadable invs\<close>: every description is one the invariant pattern reads back from the
  line \<open>writeInvariants\<close> writes for it: not empty, and free of line terminators.
\<close>

definition rereadable :: "SasInvariant list \<Rightarrow> bool" where
  "rereadable invs =
     list_all (\<lambda>invt. description invt \<noteq> [] \<and> \<not> list_ex isLineTerminator (description invt)) invs"

text \<open>
  \<open>validText s\<close>: a text that a list line carries unchanged through a write and a read:
  not empty, no white space at either end, no line terminator.
\<close>

definition validText :: "string \<Rightarrow> bool" where
  "validText s =
     (s \<noteq> [] \<and> \<not> isWhiteSpace (hd s) \<and> \<not> isWhiteSpace (last s)
      \<and> \<not> list_ex isLineTerminator s)"

text \<open>The entry \<open>markPlanStepComplete\<close> appends to the Implementation section.\<close>

definition completionEntry :: "string \<Rightarrow> string option \<Rightarrow> string \<Rightarrow> string" where
  "completionEntry stepId note now =
     ''- [A3 Implementer:plan_step] @ '' @ now @ '': ''
     @ (case note of
          None \<Rightarrow> ''Completed plan step '' @ stepId
        | Some n \<Rightarrow> (if n \<noteq> [] then stepId @ '': '' @ n else ''Completed plan step '' @ stepId))"

text \<open>A document in the template's order, with two unknown invariants and two plan items.\<close>

definition exLayout :: Layout where
  "exLayout =
     \<lparr>preamble = [], taskBody = ''\<newline>- intent\<newline>'', gap1 = ''\<newline>'',
      mechBody = ''\<newline>- [unknown] a\<newline>- [unknown] b\<newline>'', gap2 = ''\<newline>'',
      planBody = ''\<newline>- [ ] run lint\<newline>- [x] deploy\<newline>'', gap3 = ''\<newline>'',
      implBody = ''\<newline>- none\<newline>'', trailer = []\<rparr>"

text \<open>Two documents whose plan carries the text of the Mechanics heading in an item.\<close>

definition headingInPlan :: string where
  "headingInPlan = ''## 4. Plan State (Agent 2 Output)\<newline>- [ ] see ## 2. Mechanics & Invariants\<newline>- [ ] b\<newline>''"


section \<open>Properties\<close>

subsection \<open>Searching\<close>

lemma startsWith_prefix: "startsWith s p \<longleftrightarrow> prefix p s"
  unfolding startsWith_def prefix_def by (metis append_eq_conv_conj)

lemma findFirst_Some:
  "findFirst p s = Some k \<Longrightarrow>
     k \<le> length s \<and> prefix p (drop k s) \<and> (\<forall>j<k. \<not> prefix p (drop j s))"
proof (induction s arbitrary: k)
  case Nil
  then show ?case by (simp split: if_splits)
next
  case (Cons c cs)
  show ?case
  proof (cases "startsWith (c # cs) p")
    case True
    with Cons.prems show ?thesis by (simp add: startsWith_prefix)
  next
    case False
    with Cons.prems obtain k' where k': "findFirst p cs = Some k'" "k = Suc k'"
      by auto
    from Cons.IH [OF k'(1)] False k'(2) show ?thesis
      by (auto simp: startsWith_prefix less_Suc_eq_0_disj)
  qed
qed

lemma findFirst_None:
  "findFirst p s = None \<Longrightarrow> \<not> prefix p (drop j s)"
proof (induction s arbitrary: j)
  case Nil
  then show ?case by (simp split: if_splits)
next
  case (Cons c cs)
  then show ?case
    by (cases j) (auto simp: startsWith_prefix split: if_splits)
qed

lemma findFirst_eqI:
  "k \<le> length s \<Longrightarrow> prefix p (drop k s) \<Longrightarrow> (\<forall>j<k. \<not> prefix p (drop j s))
   \<Longrightarrow> findFirst p s = Some k"
proof (cases "findFirst p s")
  case None
  assume "prefix p (drop k s)"
  with findFirst_None [OF None, of k] show ?thesis by simp
next
  case (Some k')
  assume a: "k \<le> length s" "prefix p (drop k s)" "\<forall>j<k. \<not> prefix p (drop j s)"
  from findFirst_Some [OF Some] a have "k' = k"
    by (meson linorder_neqE_nat)
  with Some show ?thesis by simp
qed

lemma indexOf_Some:
  "indexOf s p f = Some i \<Longrightarrow> f \<le> length s \<Longrightarrow>
     f \<le> i \<and> i \<le> length s \<and> prefix p (drop i s)
     \<and> (\<forall>j. f \<le> j \<and> j < i \<longrightarrow> \<not> prefix p (drop j s))"
proof -
  assume a: "indexOf s p f = Some i" and f: "f \<le> length s"
  then obtain k where k: "findFirst p (drop f s) = Some k" "i = f + k"
    by (auto simp: indexOf_def Let_def min_def)
  from findFirst_Some [OF k(1)] have
    "k \<le> length s - f" "prefix p (drop (f + k) s)" "\<forall>j<k. \<not> prefix p (drop (f + j) s)"
    by (simp_all add: add.commute)
  moreover have "\<And>j. f \<le> j \<Longrightarrow> j < f + k \<Longrightarrow> \<not> prefix p (drop j s)"
  proof -
    fix j assume "f \<le> j" "j < f + k"
    then have "j - f < k" "j = f + (j - f)" by auto
    with \<open>\<forall>j<k. \<not> prefix p (drop (f + j) s)\<close> show "\<not> prefix p (drop j s)" by metis
  qed
  ultimately show ?thesis using k(2) f by auto
qed

lemma indexOf_None:
  "indexOf s p f = None \<Longrightarrow> f \<le> j \<Longrightarrow> \<not> prefix p (drop j s)"
proof -
  assume a: "indexOf s p f = None" and j: "f \<le> j"
  let ?k = "min f (length s)"
  from a have n: "findFirst p (drop ?k s) = None" by (simp add: indexOf_def Let_def)
  have "?k \<le> j" using j by simp
  then have "drop j s = drop (j - ?k) (drop ?k s)" by simp
  with findFirst_None [OF n, of "j - ?k"] show ?thesis by simp
qed

lemma indexOf_eqI:
  assumes "f \<le> i" "i \<le> length s" "prefix p (drop i s)"
    and "\<And>j. f \<le> j \<Longrightarrow> j < i \<Longrightarrow> \<not> prefix p (drop j s)"
  shows "indexOf s p f = Some i"
proof -
  have f: "min f (length s) = f" using assms(1,2) by simp
  have "findFirst p (drop f s) = Some (i - f)"
  proof (rule findFirst_eqI)
    show "i - f \<le> length (drop f s)" using assms(1,2) by simp
    show "prefix p (drop (i - f) (drop f s))" using assms(1,3) by simp
    show "\<forall>j<i - f. \<not> prefix p (drop j (drop f s))"
    proof (intro allI impI)
      fix j assume "j < i - f"
      then have "f \<le> j + f" "j + f < i" by auto
      from assms(4) [OF this] show "\<not> prefix p (drop j (drop f s))" by simp
    qed
  qed
  then show ?thesis using assms(1) by (simp add: indexOf_def Let_def f)
qed

lemma indexOf_NoneI:
  assumes "\<And>j. f \<le> j \<Longrightarrow> \<not> prefix p (drop j s)"
  shows "indexOf s p f = None"
proof (cases "indexOf s p f")
  case None then show ?thesis .
next
  case (Some i)
  let ?k = "min f (length s)"
  from Some obtain k where k: "findFirst p (drop ?k s) = Some k" "i = ?k + k"
    by (auto simp: indexOf_def Let_def)
  from findFirst_Some [OF k(1)] have p: "prefix p (drop (?k + k) s)" by (simp add: add.commute)
  show ?thesis
  proof (cases "f \<le> length s")
    case True
    then have "f \<le> ?k + k" by simp
    from assms [OF this] p show ?thesis by simp
  next
    case False
    then have "drop (?k + k) s = []" "drop f s = []" by simp_all
    with p assms [of f] show ?thesis by simp
  qed
qed

lemma includesStr_sublist: "includesStr s p \<longleftrightarrow> sublist p s"
proof
  assume "includesStr s p"
  then obtain i where "indexOf s p 0 = Some i" by (auto simp: includesStr_def)
  from indexOf_Some [OF this] have "prefix p (drop i s)" by simp
  then show "sublist p s"
    by (meson prefix_imp_sublist sublist_drop sublist_order.order.trans)
next
  assume "sublist p s"
  then obtain a b where "s = a @ p @ b" by (auto simp: sublist_def)
  then have "prefix p (drop (length a) s)" by simp
  with indexOf_None [of s p 0 "length a"] show "includesStr s p"
    by (auto simp: includesStr_def)
qed

lemma sublist_sep:
  assumes "x \<notin> set p" "p \<noteq> []"
  shows "sublist p (a @ x # b) \<longleftrightarrow> sublist p a \<or> sublist p b"
proof
  assume "sublist p (a @ x # b)"
  then consider "sublist p a" | "sublist p (x # b)"
    | p1 p2 where "p = p1 @ p2" "suffix p1 a" "prefix p2 (x # b)"
    by (auto simp: sublist_append)
  then show "sublist p a \<or> sublist p b"
  proof cases
    case 1 then show ?thesis by simp
  next
    case 2
    then have "prefix p (x # b) \<or> sublist p b" by (simp add: sublist_Cons_right)
    moreover have "\<not> prefix p (x # b)"
      using assms by (cases p) (auto simp: prefix_Cons)
    ultimately show ?thesis by simp
  next
    case 3
    show ?thesis
    proof (cases p2)
      case Nil
      with 3 show ?thesis by auto
    next
      case (Cons y ys)
      with 3 have "y = x" by (simp add: prefix_Cons)
      with 3 Cons assms show ?thesis by simp
    qed
  qed
next
  assume "sublist p a \<or> sublist p b"
  then show "sublist p (a @ x # b)"
    by (metis sublist_append sublist_Cons_right)
qed

lemma no_early_occurrence:
  assumes "CHR 0x0A \<notin> set h" "h \<noteq> []" "\<not> sublist h P" "P = [] \<or> last P = CHR 0x0A" "j < length P"
  shows "\<not> prefix h (drop j (P @ rest))"
proof
  assume "prefix h (drop j (P @ rest))"
  then have "prefix h (drop j P @ rest)" using assms(5) by simp
  then consider "prefix h (drop j P)" | us where "h = drop j P @ us"
    by (auto simp: prefix_append)
  then show False
  proof cases
    case 1
    then have "sublist h P"
      by (meson prefix_imp_sublist sublist_drop sublist_order.order.trans)
    with assms(3) show False by simp
  next
    case 2
    from assms(5) have ne: "drop j P \<noteq> []" by simp
    then have "last (drop j P) = last P" using assms(5) by simp
    moreover have "P \<noteq> []" using assms(5) by auto
    ultimately have "last (drop j P) = CHR 0x0A" using assms(4) by simp
    with ne have "CHR 0x0A \<in> set (drop j P)" by (metis last_in_set)
    with 2 have "CHR 0x0A \<in> set h" by (metis Un_iff set_append)
    with assms(1) show False by simp
  qed
qed

lemma marker_not_straddling:
  assumes "\<not> sublist ''\<newline>## '' X" "R = [] \<or> prefix ''\<newline>## '' R" "j < length X"
  shows "\<not> prefix ''\<newline>## '' (drop j X @ R)"
proof
  assume "prefix ''\<newline>## '' (drop j X @ R)"
  then consider "prefix ''\<newline>## '' (drop j X)"
    | us where "''\<newline>## '' = drop j X @ us" "prefix us R"
    by (auto simp: prefix_append)
  then show False
  proof cases
    case 1
    then have "sublist ''\<newline>## '' X"
      by (meson prefix_imp_sublist sublist_drop sublist_order.order.trans)
    with assms(1) show False by simp
  next
    case 2
    from assms(3) obtain y ys where y: "drop j X = y # ys"
      by (cases "drop j X") auto
    show False
    proof (cases us)
      case Nil
      with 2 have "prefix ''\<newline>## '' (drop j X)" by simp
      then have "sublist ''\<newline>## '' X"
        by (meson prefix_imp_sublist sublist_drop sublist_order.order.trans)
      with assms(1) show False by simp
    next
      case (Cons u us')
      with 2(1) y have "u \<in> set ''## ''"
        by (auto simp: Cons_eq_append_conv)
      moreover from Cons 2(2) assms(2) have "u = CHR 0x0A"
        by (cases R) (auto simp: prefix_Cons)
      ultimately show False by simp
    qed
  qed
qed

lemma sectionAt_indices:
  assumes "sectionAt c h P tail M R"
  shows "indexOf c h 0 = Some (length P)"
    and "indexOf c ''\<newline>## '' (length P + length h)
           = (if R = [] then None else Some (length P + length h + length tail + length M))"
    and "indexOf c ''\<newline>'' (length P + length h) = Some (length P + length h + length tail)"
proof -
  from assms have c: "c = P @ h @ tail @ M @ R" and h: "h \<noteq> []" "CHR 0x0A \<notin> set h"
    and P: "\<not> sublist h P" "P = [] \<or> last P = CHR 0x0A"
    and t: "CHR 0x0A \<notin> set tail" and M: "M = [] \<or> hd M = CHR 0x0A"
    and nm: "\<not> sublist ''\<newline>## '' (tail @ M)"
    and R: "R = [] \<or> prefix ''\<newline>## '' R" and MR: "M \<noteq> [] \<or> R \<noteq> []"
    by (simp_all add: sectionAt_def includesStr_sublist startsWith_prefix)
  show "indexOf c h 0 = Some (length P)"
  proof (rule indexOf_eqI)
    show "prefix h (drop (length P) c)" by (simp add: c)
    show "\<And>j. 0 \<le> j \<Longrightarrow> j < length P \<Longrightarrow> \<not> prefix h (drop j c)"
      unfolding c using no_early_occurrence [OF h(2) h(1) P] by blast
  qed (simp_all add: c)
  have d: "\<And>j. length P + length h \<le> j \<Longrightarrow>
             drop j c = drop (j - (length P + length h)) (tail @ M) @ drop (j - (length P + length h + length tail + length M)) R"
    by (simp add: c)
  show "indexOf c ''\<newline>## '' (length P + length h)
           = (if R = [] then None else Some (length P + length h + length tail + length M))"
  proof (cases "R = []")
    case True
    have "indexOf c ''\<newline>## '' (length P + length h) = None"
    proof (rule indexOf_NoneI)
      fix j assume j: "length P + length h \<le> j"
      have "\<not> prefix ''\<newline>## '' (drop (j - (length P + length h)) (tail @ M))"
        using nm by (meson prefix_imp_sublist sublist_drop sublist_order.order.trans)
      then show "\<not> prefix ''\<newline>## '' (drop j c)"
        using d [OF j] True by simp
    qed
    with True show ?thesis by simp
  next
    case False
    with R have Rm: "prefix ''\<newline>## '' R" by simp
    have "indexOf c ''\<newline>## '' (length P + length h)
            = Some (length P + length h + length tail + length M)"
    proof (rule indexOf_eqI)
      show "prefix ''\<newline>## '' (drop (length P + length h + length tail + length M) c)"
        using Rm by (simp add: c)
      fix j assume j: "length P + length h \<le> j" "j < length P + length h + length tail + length M"
      then have "j - (length P + length h) < length (tail @ M)" by simp
      from marker_not_straddling [OF nm R this] j
      show "\<not> prefix ''\<newline>## '' (drop j c)"
        using d [OF j(1)] by simp
    qed (simp_all add: c)
    with False show ?thesis by simp
  qed
  show "indexOf c ''\<newline>'' (length P + length h) = Some (length P + length h + length tail)"
  proof (rule indexOf_eqI)
    have "M @ R \<noteq> []" using MR by simp
    moreover have "hd (M @ R) = CHR 0x0A"
      using M R MR by (cases M; cases R) (auto simp: prefix_Cons)
    ultimately show "prefix ''\<newline>'' (drop (length P + length h + length tail) c)"
      by (cases "M @ R") (auto simp: c)
    fix j assume j: "length P + length h \<le> j" "j < length P + length h + length tail"
    then have "drop j c = drop (j - (length P + length h)) tail @ M @ R"
      by (simp add: c)
    moreover have "drop (j - (length P + length h)) tail \<noteq> []" using j by simp
    moreover have "CHR 0x0A \<notin> set (drop (j - (length P + length h)) tail)"
      using t by (meson in_set_dropD)
    ultimately show "\<not> prefix ''\<newline>'' (drop j c)"
      by (cases "drop (j - (length P + length h)) tail") (auto simp: prefix_Cons)
  qed (simp_all add: c)
qed

lemma sectionSlice_sectionAt:
  assumes "sectionAt c h P tail M R"
  shows "sectionSlice c h = Some (h @ tail @ M)"
  using sectionAt_indices(1,2) [OF assms] assms
  by (simp add: sectionSlice_def sectionAt_def slice_def)

subsection \<open>What the two writers produce\<close>

lemma trimStart_marker: "prefix ''\<newline>## '' R \<Longrightarrow> trimStart R = tl R"
proof -
  assume "prefix ''\<newline>## '' R"
  then obtain R' where "R = CHR 0x0A # CHR ''#'' # R'"
    by (auto simp: prefix_def)
  then show ?thesis by (simp add: trimStart_def isWhiteSpace_def)
qed

lemma sectionAt_bodyEnd:
  assumes "sectionAt c h P tail M R"
  shows "(case indexOf c ''\<newline>## '' (length P + length h) of None \<Rightarrow> length c | Some i \<Rightarrow> i)
           = length P + length h + length tail + length M"
proof (cases "R = []")
  case True
  moreover from assms have "c = P @ h @ tail @ M @ R" by (simp add: sectionAt_def)
  ultimately show ?thesis using sectionAt_indices(2) [OF assms] by simp
next
  case False
  then show ?thesis using sectionAt_indices(2) [OF assms] by simp
qed

lemma sectionAt_bodyStart:
  assumes "sectionAt c h P tail M R"
  shows "(case indexOf c ''\<newline>'' (length P + length h) of
            None \<Rightarrow> length P + length h | Some i \<Rightarrow> i + 1)
           = length P + length h + length tail + 1"
  using sectionAt_indices(3) [OF assms] by simp

lemma sectionAt_before:
  assumes "sectionAt c h P tail M R"
  shows "slice c 0 (length P + length h + length tail + 1) = P @ h @ tail @ ''\<newline>''"
proof -
  from assms have c: "c = P @ h @ tail @ M @ R"
    and M: "M = [] \<or> hd M = CHR 0x0A"
    and R: "R = [] \<or> prefix ''\<newline>## '' R" and MR: "M \<noteq> [] \<or> R \<noteq> []"
    by (simp_all add: sectionAt_def startsWith_prefix)
  have ne: "M @ R \<noteq> []" using MR by simp
  have "hd (M @ R) = CHR 0x0A"
  proof (cases M)
    case Nil
    with MR R have "prefix ''\<newline>## '' R" by simp
    then show ?thesis using Nil by (auto simp: prefix_def)
  next
    case (Cons m ms)
    with M show ?thesis by simp
  qed
  with ne have t: "take 1 (M @ R) = ''\<newline>''"
    by (cases "M @ R") simp_all
  have "slice c 0 (length P + length h + length tail + 1) = P @ h @ tail @ take 1 (M @ R)"
    unfolding slice_def c by simp
  with t show ?thesis by simp
qed

lemma sectionAt_existing:
  assumes "sectionAt c h P tail M R"
  shows "slice c (length P + length h + length tail + 1)
               (length P + length h + length tail + length M) = tl M"
proof -
  from assms have c: "c = P @ h @ tail @ M @ R" by (simp add: sectionAt_def)
  show ?thesis
  proof (cases M)
    case Nil
    then show ?thesis by (simp add: slice_def)
  next
    case (Cons m ms)
    then show ?thesis by (simp add: slice_def c)
  qed
qed

lemma sectionAt_after:
  assumes "sectionAt c h P tail M R"
  shows "drop (length P + length h + length tail + length M) c = R"
  using assms by (simp add: sectionAt_def)

lemma replacedContent_sectionAt:
  assumes "sectionAt c h P tail M R"
  shows "replacedContent c h newBody
           = P @ h @ tail @ ''\<newline>'' @ trim newBody @ ''\<newline>\<newline>'' @ trimStart R"
  unfolding replacedContent_def Let_def sectionAt_indices(1) [OF assms] option.case
    sectionAt_bodyEnd [OF assms] sectionAt_bodyStart [OF assms]
    sectionAt_before [OF assms] sectionAt_after [OF assms]
  by simp

lemma appendedContent_sectionAt:
  assumes "sectionAt c h P tail M R"
  shows "appendedContent c h entry
           = P @ h @ tail @ ''\<newline>''
             @ (if trimEnd (tl M) \<noteq> [] then trimEnd (tl M) @ ''\<newline>'' @ entry else entry)
             @ ''\<newline>\<newline>'' @ trimStart R"
  unfolding appendedContent_def Let_def sectionAt_indices(1) [OF assms] option.case
    sectionAt_bodyEnd [OF assms] sectionAt_bodyStart [OF assms]
    sectionAt_before [OF assms] sectionAt_after [OF assms] sectionAt_existing [OF assms]
  by simp

text \<open>The body region a writer leaves: a line feed, the new body, and the blank line.\<close>

lemma written_shape:
  assumes "R = [] \<or> prefix ''\<newline>## '' R"
  shows "''\<newline>'' @ b @ ''\<newline>\<newline>'' @ trimStart R
           = (''\<newline>'' @ b @ (if R = [] then ''\<newline>\<newline>'' else ''\<newline>'')) @ R"
proof (cases "R = []")
  case True
  then show ?thesis by (simp add: trimStart_def)
next
  case False
  with assms have p: "prefix ''\<newline>## '' R" by simp
  then have "R = CHR 0x0A # tl R" by (cases R) (auto simp: prefix_Cons)
  then have "''\<newline>'' @ tl R = R" by simp
  then show ?thesis using trimStart_marker [OF p] False by simp
qed

subsection \<open>Occurrences in composed text\<close>

lemma sublist_skip_prefix:
  assumes "p \<noteq> []" "hd p \<notin> set a"
  shows "sublist p (a @ b) \<longleftrightarrow> sublist p b"
  using assms
proof (induction a)
  case Nil
  then show ?case by simp
next
  case (Cons x a)
  then have "\<not> prefix p (x # a @ b)" by (cases p) (auto simp: prefix_Cons)
  with Cons show ?case by (simp add: sublist_Cons_right)
qed

lemma sublist_joinWith:
  assumes "CHR 0x0A \<notin> set p" "p \<noteq> []"
  shows "sublist p (joinWith ''\<newline>'' ls) \<longleftrightarrow> (\<exists>l \<in> set ls. sublist p l)"
proof (induction "''\<newline>''" ls rule: joinWith.induct)
  case 1
  then show ?case using assms by simp
next
  case (2 x)
  then show ?case by simp
next
  case (3 x y ys)
  then show ?case using sublist_sep [OF assms, of x "joinWith ''\<newline>'' (y # ys)"] by simp
qed

lemma sublist_trimEnd: "sublist p (trimEnd s) \<Longrightarrow> sublist p s"
proof -
  have "sublist (dropWhile isWhiteSpace (rev s)) (rev s)" by simp
  then have "sublist (trimEnd s) s"
    unfolding trimEnd_def by (simp add: sublist_rev_left)
  then show "sublist p (trimEnd s) \<Longrightarrow> sublist p s"
    using sublist_order.order.trans by blast
qed

lemma sublist_trimStart: "sublist p (trimStart s) \<Longrightarrow> sublist p s"
  unfolding trimStart_def using sublist_dropWhile sublist_order.order.trans by blast

lemma sublist_trim: "sublist p (trim s) \<Longrightarrow> sublist p s"
  unfolding trim_def using sublist_trimEnd sublist_trimStart by blast

subsection \<open>Lines\<close>

lemma splitLines_no_newline: "CHR 0x0A \<notin> set a \<Longrightarrow> splitLines a = [a]"
  by (induction a) auto

lemma splitLines_append:
  "CHR 0x0A \<notin> set a \<Longrightarrow> splitLines (a @ CHR 0x0A # b) = a # splitLines b"
  by (induction a) auto

lemma splitLines_region:
  assumes "CHR 0x0A \<notin> set hl" "M = [] \<or> hd M = CHR 0x0A"
  shows "splitLines (hl @ M) = hl # (if M = [] then [] else splitLines (tl M))"
proof (cases M)
  case Nil
  then show ?thesis using assms(1) by (simp add: splitLines_no_newline)
next
  case (Cons m ms)
  with assms(2) have "M = CHR 0x0A # ms" by simp
  then show ?thesis using assms(1) by (simp add: splitLines_append)
qed

lemma mappingLayer_line_meaningful:
  "trim mappingLayer \<noteq> [] \<and> \<not> includesStr (trim mappingLayer) ''pending''
   \<and> \<not> endsWith (trim mappingLayer) '': _''"
  by code_simp

subsection \<open>Sections before and after a rewritten section\<close>

lemma marker_prefix_stable:
  assumes m: "prefix ''\<newline>## '' (G @ W @ S)"
    and W: "W \<noteq> []" "CHR 0x0A \<notin> set W"
    and S: "S \<noteq> []" "hd S = CHR 0x0A"
  shows "prefix ''\<newline>## '' (G @ W @ S') \<and> G \<noteq> [] \<and> hd G = CHR 0x0A"
proof -
  have G: "G \<noteq> []"
  proof
    assume "G = []"
    with m have "prefix ''\<newline>## '' (W @ S)" by simp
    with W show False by (cases W) (auto simp: prefix_Cons)
  qed
  then obtain g G' where g: "G = g # G'" by (cases G) auto
  with m have gn: "g = CHR 0x0A" and m': "prefix ''## '' (G' @ W @ S)"
    by (auto simp: prefix_Cons)
  have "prefix ''## '' (G' @ W @ S')"
  proof -
    from m' consider "prefix ''## '' G'" | us where "''## '' = G' @ us" "prefix us (W @ S)"
      by (auto simp: prefix_append)
    then show ?thesis
    proof cases
      case 1
      then show ?thesis by (simp add: prefix_append)
    next
      case 2
      from 2(1) have "set (G' @ us) = set ''## ''" by simp
      then have un: "CHR 0x0A \<notin> set us" by auto
      from 2(2) consider "prefix us W" | vs where "us = W @ vs" "prefix vs S"
        by (auto simp: prefix_append)
      then have "prefix us W"
      proof cases
        case 1 then show ?thesis .
      next
        case 2
        have "vs = []"
        proof (cases vs)
          case Nil then show ?thesis .
        next
          case (Cons v vs')
          with 2(2) S have "v = CHR 0x0A" by (cases S) (auto simp: prefix_Cons)
          with Cons 2(1) un show ?thesis by simp
        qed
        with 2(1) show ?thesis by simp
      qed
      then have "prefix us (W @ S')" by (rule prefix_prefix)
      then have "prefix (G' @ us) (G' @ W @ S')" by simp
      with 2(1) show ?thesis by simp
    qed
  qed
  with g gn show ?thesis by (simp add: prefix_Cons)
qed

lemma sectionAt_rest_nonempty:
  assumes "sectionAt c h P tail M R"
  shows "M @ R \<noteq> [] \<and> hd (M @ R) = CHR 0x0A"
proof -
  from assms have M: "M = [] \<or> hd M = CHR 0x0A"
    and R: "R = [] \<or> prefix ''\<newline>## '' R" and MR: "M \<noteq> [] \<or> R \<noteq> []"
    by (simp_all add: sectionAt_def startsWith_prefix)
  show ?thesis
  proof (cases M)
    case Nil
    with MR R have "prefix ''\<newline>## '' R" by simp
    then show ?thesis using Nil by (auto simp: prefix_def)
  next
    case (Cons m ms)
    with M show ?thesis by simp
  qed
qed

text \<open>
  A section that ends before the heading of the rewritten one is found as before,
  whatever replaces the body region.
\<close>

lemma frame_before:
  assumes X: "sectionAt c X P tail M R"
    and Y: "sectionAt c Y P' tail' M' (G @ X @ tail @ M @ R)"
    and P: "P = P' @ Y @ tail' @ M' @ G"
    and S': "S' \<noteq> []" "hd S' = CHR 0x0A"
  shows "sectionSlice (P @ X @ tail @ S') Y = Some (Y @ tail' @ M')"
proof -
  from X have Xn: "X \<noteq> []" "CHR 0x0A \<notin> set X" "CHR 0x0A \<notin> set tail"
    by (simp_all add: sectionAt_def)
  have W: "X @ tail \<noteq> []" "CHR 0x0A \<notin> set (X @ tail)" using Xn by simp_all
  from Y Xn have "prefix ''\<newline>## '' (G @ (X @ tail) @ (M @ R))"
    by (simp add: sectionAt_def startsWith_prefix)
  from marker_prefix_stable [OF this W, of S'] sectionAt_rest_nonempty [OF X] S'
  have "prefix ''\<newline>## '' (G @ (X @ tail) @ S')" by simp
  then have "sectionAt (P @ X @ tail @ S') Y P' tail' M' (G @ X @ tail @ S')"
    using Y P Xn by (simp add: sectionAt_def startsWith_prefix)
  then show ?thesis by (rule sectionSlice_sectionAt)
qed

text \<open>
  A section after the rewritten one is found as before when its heading does not occur
  in the new body.
\<close>

lemma frame_after:
  assumes X: "sectionAt c X P tail M R"
    and Y: "sectionAt c Y (P @ X @ tail @ M @ G) tail' M' R'"
    and R: "R = G @ Y @ tail' @ M' @ R'"
    and NB: "\<not> sublist Y NB"
  shows "sectionAt (P @ X @ tail @ ''\<newline>'' @ NB @ ''\<newline>\<newline>'' @ trimStart R) Y
           (P @ X @ tail @ ''\<newline>'' @ NB @ ''\<newline>'' @ G) tail' M' R'"
proof -
  from Y have Yn: "Y \<noteq> []" "CHR 0x0A \<notin> set Y"
    and nY: "\<not> sublist Y (P @ X @ tail @ M @ G)"
    and lastP': "P @ X @ tail @ M @ G = [] \<or> last (P @ X @ tail @ M @ G) = CHR 0x0A"
    by (simp_all add: sectionAt_def includesStr_sublist)
  from X have "X \<noteq> []" by (simp add: sectionAt_def)
  with lastP' have lastP: "last (P @ X @ tail @ M @ G) = CHR 0x0A" by simp
  from X Yn R have Rm: "prefix ''\<newline>## '' R"
    by (auto simp: sectionAt_def startsWith_prefix)
  have G: "G \<noteq> []"
  proof
    assume "G = []"
    with Rm R have "prefix ''\<newline>## '' (Y @ tail' @ M' @ R')" by simp
    with Yn show False by (cases Y) (auto simp: prefix_Cons)
  qed
  with Rm R obtain G' where G': "G = CHR 0x0A # G'"
    by (cases G) (auto simp: prefix_Cons)
  have lastG: "last G = CHR 0x0A" using lastP G by simp
  have eq: "''\<newline>\<newline>'' @ trimStart R = ''\<newline>'' @ R"
    using trimStart_marker [OF Rm] Rm by (cases R) (auto simp: prefix_Cons)
  have n1: "\<not> sublist Y (P @ X @ tail)"
  proof
    assume "sublist Y (P @ X @ tail)"
    then have "sublist Y ((P @ X @ tail) @ (M @ G))"
      by (metis sublist_append)
    with nY show False by simp
  qed
  have n2: "\<not> sublist Y G"
  proof
    assume "sublist Y G"
    then have "sublist Y ((P @ X @ tail @ M) @ G)"
      by (metis sublist_append)
    with nY show False by simp
  qed
  have s1: "sublist Y (NB @ CHR 0x0A # G) \<longleftrightarrow> sublist Y NB \<or> sublist Y G"
    by (rule sublist_sep [OF Yn(2,1)])
  have s2: "sublist Y ((P @ X @ tail) @ CHR 0x0A # (NB @ CHR 0x0A # G))
              \<longleftrightarrow> sublist Y (P @ X @ tail) \<or> sublist Y (NB @ CHR 0x0A # G)"
    by (rule sublist_sep [OF Yn(2,1)])
  have "\<not> sublist Y ((P @ X @ tail) @ CHR 0x0A # (NB @ CHR 0x0A # G))"
    using s1 s2 n1 n2 NB by blast
  then have n: "\<not> sublist Y (P @ X @ tail @ ''\<newline>'' @ NB @ ''\<newline>'' @ G)"
    by simp
  have l: "last (P @ X @ tail @ ''\<newline>'' @ NB @ ''\<newline>'' @ G) = CHR 0x0A"
    using lastG G by simp
  have "P @ X @ tail @ ''\<newline>'' @ NB @ ''\<newline>\<newline>'' @ trimStart R
          = (P @ X @ tail @ ''\<newline>'' @ NB @ ''\<newline>'' @ G) @ Y @ tail' @ M' @ R'"
    using eq R by simp
  with Y n l show ?thesis
    by (simp add: sectionAt_def includesStr_sublist)
qed

subsection \<open>The writers on a known document\<close>

lemma resolveSpecPath_known:
  "specPath orc = Some p \<Longrightarrow> resolveSpecPath orc w = (Some p, orc, w)"
  by (simp add: resolveSpecPath_def)

lemma ensureInitialized_known:
  "specPath orc = Some p \<Longrightarrow> ensureInitialized orc w = (Some p, orc, w)"
  by (simp add: ensureInitialized_def)

lemma written_simps:
  "files (written w p x) = (files w)(p \<mapsto> x)" "faults (written w p x) = faults w"
  "clock (written w p x) = clock w" "noFaults (written w p x) = noFaults w"
  by (simp_all add: written_def noFaults_def)

lemma replaceSectionBody_ok:
  assumes "specPath orc = Some p" "files w p = Some c" "noFaults w"
  shows "replaceSectionBody h nb orc w = (orc, written w p (replacedContent c h nb))"
  using assms
  by (simp add: replaceSectionBody_def resolveSpecPath_known readFile_def writeFile_def
      storageCall_def noFaults_def written_def)

lemma appendToSection_ok:
  assumes "specPath orc = Some p" "files w p = Some c" "noFaults w"
  shows "appendToSection h e orc w = (orc, written w p (appendedContent c h e))"
  using assms
  by (simp add: appendToSection_def resolveSpecPath_known readFile_def writeFile_def
      storageCall_def noFaults_def written_def)

lemma replaceSectionBody_file:
  assumes "specPath orc = Some p" "files w p = Some c"
  shows "files (snd (replaceSectionBody h nb orc w)) = files w
         \<or> files (snd (replaceSectionBody h nb orc w)) = (files w)(p \<mapsto> replacedContent c h nb)"
  using assms
  by (simp add: replaceSectionBody_def resolveSpecPath_known readFile_def writeFile_def
      storageCall_def)

lemma appendToSection_file:
  assumes "specPath orc = Some p" "files w p = Some c"
  shows "files (snd (appendToSection h e orc w)) = files w
         \<or> files (snd (appendToSection h e orc w)) = (files w)(p \<mapsto> appendedContent c h e)"
  using assms
  by (simp add: appendToSection_def resolveSpecPath_known readFile_def writeFile_def
      storageCall_def)

lemma exOrc_path: "specPath exOrc = Some exPath"
  by (simp add: exOrc_def exPath_def)

lemma exWorld_file: "files (exWorld content) exPath = Some content"
  by (simp add: exWorld_def exPath_def)

lemma reader_ok:
  assumes "specPath orc = Some p" "files w p = Some c" "\<not> faults w (tick w)"
  shows "readInvariants orc w = (invariantsOfContent c, orc, w\<lparr>tick := Suc (tick w)\<rparr>)"
    "readPlanItems orc w = (planItemsOfContent c, orc, w\<lparr>tick := Suc (tick w)\<rparr>)"
    "hasMappingLayer orc w = (mappingLayerMeaningful c, orc, w\<lparr>tick := Suc (tick w)\<rparr>)"
  using assms
  by (simp_all add: readInvariants_def readPlanItems_def hasMappingLayer_def
      resolveSpecPath_known readFile_def storageCall_def)

subsection \<open>Storage failures\<close>

lemma untouched_refl [simp]: "untouched w w"
  by (simp add: untouched_def)

lemma untouched_trans: "untouched a b \<Longrightarrow> untouched b c \<Longrightarrow> untouched a c"
  by (simp add: untouched_def)

lemma untouched_down: "untouched w w' \<Longrightarrow> storageDown w \<Longrightarrow> storageDown w'"
  by (simp add: untouched_def storageDown_def)

lemma readFile_down:
  "storageDown w \<Longrightarrow> fst (readFile p w) = Inl StorageError \<and> untouched w (snd (readFile p w))"
  by (simp add: readFile_def storageCall_def storageDown_def untouched_def)

lemma writeFile_down:
  "storageDown w \<Longrightarrow> fst (writeFile p c w) = Inl StorageError \<and> untouched w (snd (writeFile p c w))"
  by (simp add: writeFile_def storageCall_def storageDown_def untouched_def)

lemma mkdir_down:
  "storageDown w \<Longrightarrow> fst (mkdir w) = Inl StorageError \<and> untouched w (snd (mkdir w))"
  by (simp add: mkdir_def storageCall_def storageDown_def untouched_def)

lemma ensureSpecFile_down:
  assumes "storageDown w"
  shows "fst (ensureSpecFile r md task w) = None \<and> untouched w (snd (ensureSpecFile r md task w))"
  using mkdir_down [OF assms]
  by (auto simp: ensureSpecFile_def ensureContainerDirectory_def split: prod.splits sum.splits)

lemma ensureInitialized_down:
  assumes "storageDown w"
  shows "fst (ensureInitialized orc w) = specPath orc
         \<and> specPath (fst (snd (ensureInitialized orc w))) = specPath orc
         \<and> currentPhase (fst (snd (ensureInitialized orc w))) = currentPhase orc
         \<and> untouched w (snd (snd (ensureInitialized orc w)))"
proof (cases "specPath orc")
  case None
  obtain sp w1 where e: "ensureSpecFile (workspaceRoot orc)
       \<lparr>md_containerId = containerId orc, md_title = title orc, md_createdAt = None,
        md_scopePaths = scopePaths orc, md_primaryModel = None, md_backupModel = None\<rparr>
       (initialTask orc) w = (sp, w1)"
    by (metis surj_pair)
  have "fst (ensureSpecFile (workspaceRoot orc)
       \<lparr>md_containerId = containerId orc, md_title = title orc, md_createdAt = None,
        md_scopePaths = scopePaths orc, md_primaryModel = None, md_backupModel = None\<rparr>
       (initialTask orc) w) = None
     \<and> untouched w (snd (ensureSpecFile (workspaceRoot orc)
       \<lparr>md_containerId = containerId orc, md_title = title orc, md_createdAt = None,
        md_scopePaths = scopePaths orc, md_primaryModel = None, md_backupModel = None\<rparr>
       (initialTask orc) w))"
    by (rule ensureSpecFile_down [OF assms])
  with e have "sp = None" "untouched w w1" by simp_all
  with None e show ?thesis by (simp add: ensureInitialized_def)
next
  case (Some p)
  then show ?thesis by (simp add: ensureInitialized_def)
qed

lemma resolveSpecPath_down:
  assumes "storageDown w"
  shows "fst (resolveSpecPath orc w) = specPath orc
         \<and> specPath (fst (snd (resolveSpecPath orc w))) = specPath orc
         \<and> currentPhase (fst (snd (resolveSpecPath orc w))) = currentPhase orc
         \<and> untouched w (snd (snd (resolveSpecPath orc w)))"
  using ensureInitialized_down [OF assms, of orc]
  by (cases "specPath orc") (simp_all add: resolveSpecPath_def)

text \<open>The five private helpers share one shape: resolve the path, read, then compute.\<close>

lemma helper_down:
  assumes d: "storageDown w"
    and f: "\<And>orc w. f orc w =
              (case resolveSpecPath orc w of
                 (None, orc1, w1) \<Rightarrow> (dflt, orc1, w1)
               | (Some p, orc1, w1) \<Rightarrow>
                   (case readFile p w1 of
                      (Inl e, w2) \<Rightarrow> (dflt, orc1, w2)
                    | (Inr content, w2) \<Rightarrow> (g content, orc1, w2)))"
  shows "fst (f orc w) = dflt
         \<and> specPath (fst (snd (f orc w))) = specPath orc
         \<and> currentPhase (fst (snd (f orc w))) = currentPhase orc
         \<and> untouched w (snd (snd (f orc w)))"
proof -
  obtain sp orc1 w1 where r: "resolveSpecPath orc w = (sp, orc1, w1)" by (metis prod_cases3)
  from resolveSpecPath_down [OF d, of orc] r
  have 1: "specPath orc1 = specPath orc" "currentPhase orc1 = currentPhase orc" "untouched w w1"
    by simp_all
  show ?thesis
  proof (cases sp)
    case None
    with r 1 show ?thesis by (simp add: f)
  next
    case (Some p)
    obtain x w2 where rf: "readFile p w1 = (x, w2)" by (metis surj_pair)
    from readFile_down [OF untouched_down [OF 1(3) d], of p] rf
    have "x = Inl StorageError" "untouched w1 w2" by simp_all
    with r Some rf 1 untouched_trans [of w w1 w2] show ?thesis by (simp add: f)
  qed
qed

lemma readInvariants_down:
  assumes "storageDown w"
  shows "fst (readInvariants orc w) = []
         \<and> specPath (fst (snd (readInvariants orc w))) = specPath orc
         \<and> currentPhase (fst (snd (readInvariants orc w))) = currentPhase orc
         \<and> untouched w (snd (snd (readInvariants orc w)))"
  by (rule helper_down [OF assms, where g = invariantsOfContent]) (simp add: readInvariants_def)

lemma readPlanItems_down:
  assumes "storageDown w"
  shows "fst (readPlanItems orc w) = []
         \<and> specPath (fst (snd (readPlanItems orc w))) = specPath orc
         \<and> currentPhase (fst (snd (readPlanItems orc w))) = currentPhase orc
         \<and> untouched w (snd (snd (readPlanItems orc w)))"
  by (rule helper_down [OF assms, where g = planItemsOfContent]) (simp add: readPlanItems_def)

lemma hasMappingLayer_down:
  assumes "storageDown w"
  shows "fst (hasMappingLayer orc w) = False
         \<and> specPath (fst (snd (hasMappingLayer orc w))) = specPath orc
         \<and> currentPhase (fst (snd (hasMappingLayer orc w))) = currentPhase orc
         \<and> untouched w (snd (snd (hasMappingLayer orc w)))"
  by (rule helper_down [OF assms, where g = mappingLayerMeaningful]) (simp add: hasMappingLayer_def)

lemma writer_down:
  assumes d: "storageDown w"
    and f: "\<And>orc w. f orc w =
              (case resolveSpecPath orc w of
                 (None, orc1, w1) \<Rightarrow> (orc1, w1)
               | (Some p, orc1, w1) \<Rightarrow>
                   (case readFile p w1 of
                      (Inl e, w2) \<Rightarrow> (orc1, w2)
                    | (Inr content, w2) \<Rightarrow> (orc1, snd (writeFile p (g content) w2))))"
  shows "specPath (fst (f orc w)) = specPath orc
         \<and> currentPhase (fst (f orc w)) = currentPhase orc
         \<and> untouched w (snd (f orc w))"
proof -
  obtain sp orc1 w1 where r: "resolveSpecPath orc w = (sp, orc1, w1)" by (metis prod_cases3)
  from resolveSpecPath_down [OF d, of orc] r
  have 1: "specPath orc1 = specPath orc" "currentPhase orc1 = currentPhase orc" "untouched w w1"
    by simp_all
  show ?thesis
  proof (cases sp)
    case None
    with r 1 show ?thesis by (simp add: f)
  next
    case (Some p)
    obtain x w2 where rf: "readFile p w1 = (x, w2)" by (metis surj_pair)
    from readFile_down [OF untouched_down [OF 1(3) d], of p] rf
    have "x = Inl StorageError" "untouched w1 w2" by simp_all
    with r Some rf 1 untouched_trans [of w w1 w2] show ?thesis by (simp add: f)
  qed
qed

lemma appendToSection_down:
  assumes "storageDown w"
  shows "specPath (fst (appendToSection h e orc w)) = specPath orc
         \<and> currentPhase (fst (appendToSection h e orc w)) = currentPhase orc
         \<and> untouched w (snd (appendToSection h e orc w))"
  by (rule writer_down [OF assms, where g = "\<lambda>content. appendedContent content h e"])
     (simp add: appendToSection_def)

lemma replaceSectionBody_down:
  assumes "storageDown w"
  shows "specPath (fst (replaceSectionBody h b orc w)) = specPath orc
         \<and> currentPhase (fst (replaceSectionBody h b orc w)) = currentPhase orc
         \<and> untouched w (snd (replaceSectionBody h b orc w))"
  by (rule writer_down [OF assms, where g = "\<lambda>content. replacedContent content h b"])
     (simp add: replaceSectionBody_def)

lemma writeInvariants_down:
  assumes "storageDown w"
  shows "specPath (fst (writeInvariants invs orc w)) = specPath orc
         \<and> currentPhase (fst (writeInvariants invs orc w)) = currentPhase orc
         \<and> untouched w (snd (writeInvariants invs orc w))"
  using replaceSectionBody_down [OF assms] by (simp add: writeInvariants_def)

lemma writePlanItemsFromList_down:
  assumes "storageDown w"
  shows "specPath (fst (writePlanItemsFromList items orc w)) = specPath orc
         \<and> currentPhase (fst (writePlanItemsFromList items orc w)) = currentPhase orc
         \<and> untouched w (snd (writePlanItemsFromList items orc w))"
  using replaceSectionBody_down [OF assms] by (simp add: writePlanItemsFromList_def)

lemma setPhase_down:
  assumes d: "storageDown w"
  shows "specPath (fst (setPhase ph r orc w)) = specPath orc
         \<and> untouched w (snd (setPhase ph r orc w))"
proof -
  obtain sp orc1 w1 where e: "ensureInitialized orc w = (sp, orc1, w1)" by (metis prod_cases3)
  from ensureInitialized_down [OF d, of orc] e
  have 1: "specPath orc1 = specPath orc" "untouched w w1" by simp_all
  note d1 = untouched_down [OF 1(2) d]
  have "specPath (fst (appendToSection h e (orc1\<lparr>currentPhase := Some ph\<rparr>) w1)) = specPath orc
        \<and> untouched w (snd (appendToSection h e (orc1\<lparr>currentPhase := Some ph\<rparr>) w1))" for h e
    using appendToSection_down [OF d1, of h e "orc1\<lparr>currentPhase := Some ph\<rparr>"] 1
      untouched_trans [of w w1] by simp
  with 1 show ?thesis by (simp add: setPhase_def e Let_def)
qed

lemma after_setPhase_down:
  assumes d: "storageDown w"
    and g: "\<And>orc w. storageDown w \<Longrightarrow>
              specPath (fst (g orc w)) = specPath orc \<and> untouched w (snd (g orc w))"
  shows "specPath (fst (case ensureInitialized orc w of
                          (sp, orc1, w1) \<Rightarrow> (case setPhase ph r orc1 w1 of (orc2, w2) \<Rightarrow> g orc2 w2)))
           = specPath orc
         \<and> untouched w (snd (case ensureInitialized orc w of
                          (sp, orc1, w1) \<Rightarrow> (case setPhase ph r orc1 w1 of (orc2, w2) \<Rightarrow> g orc2 w2)))"
proof -
  obtain sp orc1 w1 where e: "ensureInitialized orc w = (sp, orc1, w1)" by (metis prod_cases3)
  from ensureInitialized_down [OF d, of orc] e
  have 1: "specPath orc1 = specPath orc" "untouched w w1" by simp_all
  note d1 = untouched_down [OF 1(2) d]
  obtain orc2 w2 where s: "setPhase ph r orc1 w1 = (orc2, w2)" by (metis surj_pair)
  from setPhase_down [OF d1, of ph r orc1] s
  have 2: "specPath orc2 = specPath orc1" "untouched w1 w2" by simp_all
  note d2 = untouched_down [OF 2(2) d1]
  have u2: "untouched w w2" using 1(2) 2(2) by (rule untouched_trans)
  from g [OF d2, of orc2] have 3: "specPath (fst (g orc2 w2)) = specPath orc2"
    "untouched w2 (snd (g orc2 w2))" by simp_all
  have "untouched w (snd (g orc2 w2))" using u2 3(2) by (rule untouched_trans)
  with 3(1) 1(1) 2(1) show ?thesis by (simp add: e s)
qed

lemma recordImplementationUpdate_down:
  assumes d: "storageDown w"
  shows "specPath (fst (recordImplementationUpdate kind text orc w)) = specPath orc
         \<and> untouched w (snd (recordImplementationUpdate kind text orc w))"
  unfolding recordImplementationUpdate_def Let_def
  by (rule after_setPhase_down [OF d]) (simp add: appendToSection_down)

lemma recordUserIntent_down:
  assumes d: "storageDown w"
  shows "specPath (fst (recordUserIntent intent att orc w)) = specPath orc
         \<and> untouched w (snd (recordUserIntent intent att orc w))"
  unfolding recordUserIntent_def Let_def
  by (rule after_setPhase_down [OF d]) (simp add: appendToSection_down)

lemma recordOpenQuestion_down:
  assumes d: "storageDown w"
  shows "specPath (fst (recordOpenQuestion note orc w)) = specPath orc
         \<and> untouched w (snd (recordOpenQuestion note orc w))"
  unfolding recordOpenQuestion_def
  by (rule after_setPhase_down [OF d]) (simp add: appendToSection_down)

lemma writePlanItems_down:
  assumes d: "storageDown w"
  shows "specPath (fst (writePlanItems planText orc w)) = specPath orc
         \<and> untouched w (snd (writePlanItems planText orc w))"
proof (cases "case planText of None \<Rightarrow> None | Some t \<Rightarrow> (if t = [] then None else Some t)")
  case None
  then show ?thesis using appendToSection_down [OF d] by (simp add: writePlanItems_def)
next
  case (Some t)
  define bullets where "bullets = map (\<lambda>line. ''- [ ] '' @ line) (filter (\<lambda>line. line \<noteq> []) (map trim (splitLines t)))"
  define body where "body = (if bullets \<noteq> [] then joinWith ''\<newline>'' bullets else ''- [ ] '' @ trim t)"
  obtain orc1 w1 where r: "replaceSectionBody planHeading body orc w = (orc1, w1)" by (metis surj_pair)
  from replaceSectionBody_down [OF d, of planHeading body orc] r
  have 1: "specPath orc1 = specPath orc" "untouched w w1" by simp_all
  note d1 = untouched_down [OF 1(2) d]
  obtain invs orc2 w2 where i: "readInvariants orc1 w1 = (invs, orc2, w2)" by (metis prod_cases3)
  from readInvariants_down [OF d1, of orc1] i
  have 2: "specPath orc2 = specPath orc1" "untouched w1 w2" by simp_all
  note d2 = untouched_down [OF 2(2) d1]
  have u2: "untouched w w2" using 1(2) 2(2) by (rule untouched_trans)
  have w: "writePlanItems planText orc w =
             (if invs = [] \<and> bullets \<noteq> [] then writeInvariants (seedInvariantsFrom 0 bullets) orc2 w2
              else (orc2, w2))"
    unfolding writePlanItems_def Some option.case Let_def bullets_def [symmetric]
      body_def [symmetric] r prod.case i ..
  show ?thesis
  proof (cases "invs = [] \<and> bullets \<noteq> []")
    case True
    from writeInvariants_down [OF d2, of "seedInvariantsFrom 0 bullets" orc2]
    have 3: "specPath (fst (writeInvariants (seedInvariantsFrom 0 bullets) orc2 w2)) = specPath orc2"
      "untouched w2 (snd (writeInvariants (seedInvariantsFrom 0 bullets) orc2 w2))" by simp_all
    have "untouched w (snd (writeInvariants (seedInvariantsFrom 0 bullets) orc2 w2))"
      using u2 3(2) by (rule untouched_trans)
    moreover have "writePlanItems planText orc w
        = writeInvariants (seedInvariantsFrom 0 bullets) orc2 w2" unfolding w by (rule if_P [OF True])
    ultimately show ?thesis using 3(1) 1(1) 2(1) by simp
  next
    case False
    have "writePlanItems planText orc w = (orc2, w2)" unfolding w by (rule if_not_P [OF False])
    with u2 1(1) 2(1) show ?thesis by simp
  qed
qed

lemma recordPlanUpdate_down:
  assumes d: "storageDown w"
  shows "specPath (fst (recordPlanUpdate planText orc w)) = specPath orc
         \<and> untouched w (snd (recordPlanUpdate planText orc w))"
  unfolding recordPlanUpdate_def
  by (rule after_setPhase_down [OF d]) (simp add: writePlanItems_down)

lemma recordSayEvent_down:
  assumes d: "storageDown w"
  shows "specPath (fst (recordSayEvent event orc w)) = specPath orc
         \<and> untouched w (snd (recordSayEvent event orc w))"
  using recordUserIntent_down [OF d] recordPlanUpdate_down [OF d] recordOpenQuestion_down [OF d]
    recordImplementationUpdate_down [OF d]
  by (simp add: recordSayEvent_def Let_def)

lemma getDeterminacyState_down:
  assumes d: "storageDown w"
  shows "invariants (fst (getDeterminacyState orc w)) = []
         \<and> plan (fst (getDeterminacyState orc w)) = []
         \<and> \<not> readyForPlanning (fst (getDeterminacyState orc w))
         \<and> \<not> readyForImplementation (fst (getDeterminacyState orc w))
         \<and> specPath (fst (snd (getDeterminacyState orc w))) = specPath orc
         \<and> untouched w (snd (snd (getDeterminacyState orc w)))"
proof -
  obtain sp orc1 w1 where e: "ensureInitialized orc w = (sp, orc1, w1)" by (metis prod_cases3)
  from ensureInitialized_down [OF d, of orc] e
  have 1: "specPath orc1 = specPath orc" "untouched w w1" by simp_all
  note d1 = untouched_down [OF 1(2) d]
  obtain invs orc2 w2 where i: "readInvariants orc1 w1 = (invs, orc2, w2)" by (metis prod_cases3)
  from readInvariants_down [OF d1, of orc1] i
  have 2: "invs = []" "specPath orc2 = specPath orc1" "untouched w1 w2" by simp_all
  note d2 = untouched_down [OF 2(3) d1]
  obtain items orc3 w3 where p: "readPlanItems orc2 w2 = (items, orc3, w3)" by (metis prod_cases3)
  from readPlanItems_down [OF d2, of orc2] p
  have 3: "items = []" "specPath orc3 = specPath orc2" "untouched w2 w3" by simp_all
  note d3 = untouched_down [OF 3(3) d2]
  obtain m orc4 w4 where h: "hasMappingLayer orc3 w3 = (m, orc4, w4)" by (metis prod_cases3)
  from hasMappingLayer_down [OF d3, of orc3] h
  have 4: "specPath orc4 = specPath orc3" "untouched w3 w4" by simp_all
  have "untouched w w4"
    using 1(2) 2(3) 3(3) 4(2) by (meson untouched_trans)
  with 1 2 3 4 show ?thesis
    by (simp add: getDeterminacyState_def e i p h Let_def)
qed

lemma validatePlannedToolExecution_down:
  assumes d: "storageDown w"
  shows "\<not> allowed (fst (validatePlannedToolExecution toolName orc w))
         \<and> reason (fst (validatePlannedToolExecution toolName orc w)) \<noteq> None
         \<and> untouched w (snd (snd (validatePlannedToolExecution toolName orc w)))"
proof -
  obtain st orc1 w1 where g: "getDeterminacyState orc w = (st, orc1, w1)" by (metis prod_cases3)
  from getDeterminacyState_down [OF d, of orc] g
  have "\<not> readyForImplementation st" "untouched w w1" by simp_all
  then show ?thesis by (simp add: validatePlannedToolExecution_def g)
qed

lemma getSpecInstructions_down:
  assumes d: "storageDown w"
  shows "fst (getSpecInstructions maxChars orc w) = None
         \<and> untouched w (snd (snd (getSpecInstructions maxChars orc w)))"
proof -
  obtain sp orc1 w1 where e: "ensureInitialized orc w = (sp, orc1, w1)" by (metis prod_cases3)
  from ensureInitialized_down [OF d, of orc] e
  have 1: "specPath orc1 = specPath orc" "untouched w w1" by simp_all
  note d1 = untouched_down [OF 1(2) d]
  show ?thesis
  proof (cases "specPath orc1")
    case None
    with 1 show ?thesis by (simp add: getSpecInstructions_def e)
  next
    case (Some p)
    obtain x w2 where rf: "readFile p w1 = (x, w2)" by (metis surj_pair)
    from readFile_down [OF d1, of p] rf
    have 2: "x = Inl StorageError" "untouched w1 w2" by simp_all
    have "untouched w w2" using 1(2) 2(2) by (rule untouched_trans)
    with 2 Some show ?thesis by (simp add: getSpecInstructions_def e rf)
  qed
qed

lemma markPlanStepComplete_down:
  assumes d: "storageDown w"
  shows "specPath (fst (markPlanStepComplete stepId note orc w)) = specPath orc
         \<and> untouched w (snd (markPlanStepComplete stepId note orc w))"
proof -
  obtain sp orc1 w1 where e: "ensureInitialized orc w = (sp, orc1, w1)" by (metis prod_cases3)
  from ensureInitialized_down [OF d, of orc] e
  have 1: "specPath orc1 = specPath orc" "untouched w w1" by simp_all
  note d1 = untouched_down [OF 1(2) d]
  obtain items orc2 w2 where p: "readPlanItems orc1 w1 = (items, orc2, w2)" by (metis prod_cases3)
  from readPlanItems_down [OF d1, of orc1] p
  have 2: "items = []" "specPath orc2 = specPath orc1" "untouched w1 w2" by simp_all
  note d2 = untouched_down [OF 2(3) d1]
  obtain orc3 w3 where wp: "writePlanItemsFromList [] orc2 w2 = (orc3, w3)" by (metis surj_pair)
  from writePlanItemsFromList_down [OF d2, of "[]" orc2] wp
  have 3: "specPath orc3 = specPath orc2" "untouched w2 w3" by simp_all
  note d3 = untouched_down [OF 3(2) d2]
  obtain invs orc4 w4 where i: "readInvariants orc3 w3 = (invs, orc4, w4)" by (metis prod_cases3)
  from readInvariants_down [OF d3, of orc3] i
  have 4: "invs = []" "specPath orc4 = specPath orc3" "untouched w3 w4" by simp_all
  note d4 = untouched_down [OF 4(3) d3]
  have u4: "untouched w w4" using 1(2) 2(3) 3(2) 4(3) by (meson untouched_trans)
  have 5: "specPath (fst (recordImplementationUpdate k t orc4 w4)) = specPath orc4"
    "untouched w4 (snd (recordImplementationUpdate k t orc4 w4))" for k t
    using recordImplementationUpdate_down [OF d4, of k t orc4] by simp_all
  have "untouched w (snd (recordImplementationUpdate k t orc4 w4))" for k t
    using u4 5(2) by (rule untouched_trans)
  with 5(1) 1 2 3 4 show ?thesis
    by (simp add: markPlanStepComplete_def e p wp i Let_def)
qed

subsection \<open>The rewritten section, and sections before it\<close>

lemma marker_after_lines:
  assumes "\<not> sublist ''\<newline>## '' (CHR 0x0A # NB)"
  shows "\<not> sublist ''\<newline>## '' (''\<newline>'' @ NB @ ''\<newline>'')"
proof
  assume "sublist ''\<newline>## '' (''\<newline>'' @ NB @ ''\<newline>'')"
  then have "sublist ''\<newline>## '' ((CHR 0x0A # NB) @ ''\<newline>'')" by simp
  then consider "sublist ''\<newline>## '' (CHR 0x0A # NB)" | "sublist ''\<newline>## '' ''\<newline>''"
    | xs1 xs2 where "''\<newline>## '' = xs1 @ xs2" "suffix xs1 (CHR 0x0A # NB)" "prefix xs2 ''\<newline>''"
    unfolding sublist_append by blast
  then show False
  proof cases
    case 1 with assms show ?thesis by simp
  next
    case 2
    then have "length ''\<newline>## '' \<le> length ''\<newline>''" by (rule sublist_length_le)
    then show ?thesis by simp
  next
    case 3
    from 3(3) have "xs2 = [] \<or> xs2 = ''\<newline>''" by (cases xs2) (auto simp: prefix_Cons)
    then show ?thesis
    proof
      assume "xs2 = []"
      with 3 have "suffix ''\<newline>## '' (CHR 0x0A # NB)" by simp
      then have "sublist ''\<newline>## '' (CHR 0x0A # NB)" by (rule suffix_imp_sublist)
      with assms show False by simp
    next
      assume "xs2 = ''\<newline>''"
      with 3(1) have "last ''\<newline>## '' = CHR 0x0A"
        by (metis last_appendR last.simps list.distinct(1))
      then show False by simp
    qed
  qed
qed

lemma frame_self:
  assumes X: "sectionAt c X P tail M R" and R: "R \<noteq> []"
    and NB: "\<not> sublist ''\<newline>## '' (CHR 0x0A # NB)"
  shows "P @ X @ tail @ ''\<newline>'' @ NB @ ''\<newline>\<newline>'' @ trimStart R
           = P @ X @ tail @ (''\<newline>'' @ NB @ ''\<newline>'') @ R"
    and "sectionAt (P @ X @ tail @ (''\<newline>'' @ NB @ ''\<newline>'') @ R) X P tail
           (''\<newline>'' @ NB @ ''\<newline>'') R"
proof -
  from X R have Rm: "prefix ''\<newline>## '' R"
    by (simp add: sectionAt_def startsWith_prefix)
  from written_shape [of R NB] Rm R
  show e: "P @ X @ tail @ ''\<newline>'' @ NB @ ''\<newline>\<newline>'' @ trimStart R
           = P @ X @ tail @ (''\<newline>'' @ NB @ ''\<newline>'') @ R"
    by simp
  from X have t: "CHR 0x0A \<notin> set tail" by (simp add: sectionAt_def)
  have "sublist ''\<newline>## '' (tail @ (''\<newline>'' @ NB @ ''\<newline>''))
          \<longleftrightarrow> sublist ''\<newline>## '' (''\<newline>'' @ NB @ ''\<newline>'')"
    by (rule sublist_skip_prefix) (use t in simp_all)
  with marker_after_lines [OF NB]
  have "\<not> sublist ''\<newline>## '' (tail @ (''\<newline>'' @ NB @ ''\<newline>''))" by simp
  with X show "sectionAt (P @ X @ tail @ (''\<newline>'' @ NB @ ''\<newline>'') @ R) X P tail
           (''\<newline>'' @ NB @ ''\<newline>'') R"
    by (simp add: sectionAt_def includesStr_sublist)
qed

lemma frame_before_at:
  assumes X: "sectionAt c X P tail M R"
    and Y: "sectionAt c Y P' tail' M' (G @ X @ tail @ M @ R)"
    and P: "P = P' @ Y @ tail' @ M' @ G"
    and S': "S' \<noteq> []" "hd S' = CHR 0x0A"
  shows "sectionAt (P @ X @ tail @ S') Y P' tail' M' (G @ X @ tail @ S')"
proof -
  from X have Xn: "X \<noteq> []" "CHR 0x0A \<notin> set X" "CHR 0x0A \<notin> set tail"
    by (simp_all add: sectionAt_def)
  have W: "X @ tail \<noteq> []" "CHR 0x0A \<notin> set (X @ tail)" using Xn by simp_all
  from Y Xn have "prefix ''\<newline>## '' (G @ (X @ tail) @ (M @ R))"
    by (simp add: sectionAt_def startsWith_prefix)
  from marker_prefix_stable [OF this W, of S'] sectionAt_rest_nonempty [OF X] S'
  have "prefix ''\<newline>## '' (G @ (X @ tail) @ S')" by simp
  then show "sectionAt (P @ X @ tail @ S') Y P' tail' M' (G @ X @ tail @ S')"
    using Y P Xn by (simp add: sectionAt_def startsWith_prefix)
qed

subsection \<open>Writes into a document in the template's order\<close>

lemma heading_nonempty:
  "taskClaim \<noteq> []" "mechanics \<noteq> []" "planHeading \<noteq> []" "implementation \<noteq> []"
  by (simp_all add: taskClaim_def mechanics_def planHeading_def implementation_def)

lemma plan_written:
  assumes wf: "wellFormed L"
    and nb: "\<not> sublist ''\<newline>## '' (CHR 0x0A # NB)"
    and ni: "\<not> sublist implementation NB"
    and tr: "trim nb = NB"
  shows "replacedContent (render L) planHeading nb = render (L\<lparr>planBody := ''\<newline>'' @ NB @ ''\<newline>''\<rparr>)"
    and "wellFormed (L\<lparr>planBody := ''\<newline>'' @ NB @ ''\<newline>''\<rparr>)"
proof -
  define P where "P = preamble L @ taskClaim @ taskBody L @ gap1 L @ mechanics @ mechBody L @ gap2 L"
  define R where "R = gap3 L @ implementation @ implBody L @ trailer L"
  define L' where "L' = L\<lparr>planBody := ''\<newline>'' @ NB @ ''\<newline>''\<rparr>"
  have X: "sectionAt (render L) planHeading P [] (planBody L) R"
    using wf by (simp add: wellFormed_def planAt_def P_def R_def)
  have Rn: "R \<noteq> []" by (simp add: R_def heading_nonempty)
  have r': "render L' = P @ planHeading @ [] @ (''\<newline>'' @ NB @ ''\<newline>'') @ R"
    by (simp add: render_def L'_def P_def R_def)
  have e: "P @ planHeading @ [] @ ''\<newline>'' @ NB @ ''\<newline>\<newline>'' @ trimStart R = render L'"
    unfolding r' by (rule frame_self(1) [OF X Rn nb])
  show "replacedContent (render L) planHeading nb = render (L\<lparr>planBody := ''\<newline>'' @ NB @ ''\<newline>''\<rparr>)"
    unfolding L'_def [symmetric] replacedContent_sectionAt [OF X] tr by (rule e)
  have p: "planAt L'"
    using frame_self(2) [OF X Rn nb] unfolding planAt_def r'
    by (simp add: L'_def P_def R_def)
  have S: "(''\<newline>'' @ NB @ ''\<newline>'') @ R \<noteq> []" "hd ((''\<newline>'' @ NB @ ''\<newline>'') @ R) = CHR 0x0A"
    by simp_all
  have Yt: "sectionAt (render L) taskClaim (preamble L) [] (taskBody L)
              ((gap1 L @ mechanics @ mechBody L @ gap2 L) @ planHeading @ [] @ planBody L @ R)"
    using wf by (simp add: wellFormed_def taskAt_def R_def)
  have "sectionAt (P @ planHeading @ [] @ (''\<newline>'' @ NB @ ''\<newline>'') @ R) taskClaim (preamble L) []
          (taskBody L) ((gap1 L @ mechanics @ mechBody L @ gap2 L) @ planHeading @ []
             @ (''\<newline>'' @ NB @ ''\<newline>'') @ R)"
    by (rule frame_before_at [OF X Yt _ S]) (simp add: P_def)
  then have t: "taskAt L'"
    unfolding taskAt_def r' by (simp add: L'_def P_def R_def)
  have Ym: "sectionAt (render L) mechanics (preamble L @ taskClaim @ taskBody L @ gap1 L) []
              (mechBody L) (gap2 L @ planHeading @ [] @ planBody L @ R)"
    using wf by (simp add: wellFormed_def mechAt_def R_def)
  have "sectionAt (P @ planHeading @ [] @ (''\<newline>'' @ NB @ ''\<newline>'') @ R) mechanics
          (preamble L @ taskClaim @ taskBody L @ gap1 L) []
          (mechBody L) (gap2 L @ planHeading @ [] @ (''\<newline>'' @ NB @ ''\<newline>'') @ R)"
    by (rule frame_before_at [OF X Ym _ S]) (simp add: P_def)
  then have m: "mechAt L'"
    unfolding mechAt_def r' by (simp add: L'_def P_def R_def)
  have Yi: "sectionAt (render L) implementation (P @ planHeading @ [] @ planBody L @ gap3 L) []
              (implBody L) (trailer L)"
    using wf by (simp add: wellFormed_def implAt_def P_def)
  have "sectionAt (P @ planHeading @ [] @ ''\<newline>'' @ NB @ ''\<newline>\<newline>'' @ trimStart R) implementation
          (P @ planHeading @ [] @ ''\<newline>'' @ NB @ ''\<newline>'' @ gap3 L) [] (implBody L) (trailer L)"
    by (rule frame_after [OF X Yi _ ni]) (simp add: R_def)
  then have i: "implAt L'"
    unfolding e implAt_def by (simp add: L'_def P_def)
  from t m p i show "wellFormed (L\<lparr>planBody := ''\<newline>'' @ NB @ ''\<newline>''\<rparr>)"
    unfolding L'_def [symmetric] wellFormed_def by simp
qed

lemma mech_written:
  assumes wf: "wellFormed L"
    and nb: "\<not> sublist ''\<newline>## '' (CHR 0x0A # NB)"
    and np: "\<not> sublist planHeading NB"
    and ni: "\<not> sublist implementation NB"
    and tr: "trim nb = NB"
  shows "replacedContent (render L) mechanics nb = render (L\<lparr>mechBody := ''\<newline>'' @ NB @ ''\<newline>''\<rparr>)"
    and "wellFormed (L\<lparr>mechBody := ''\<newline>'' @ NB @ ''\<newline>''\<rparr>)"
proof -
  define P where "P = preamble L @ taskClaim @ taskBody L @ gap1 L"
  define R where "R = gap2 L @ planHeading @ planBody L @ gap3 L @ implementation @ implBody L @ trailer L"
  define L' where "L' = L\<lparr>mechBody := ''\<newline>'' @ NB @ ''\<newline>''\<rparr>"
  have X: "sectionAt (render L) mechanics P [] (mechBody L) R"
    using wf by (simp add: wellFormed_def mechAt_def P_def R_def)
  have Rn: "R \<noteq> []" by (simp add: R_def heading_nonempty)
  have r': "render L' = P @ mechanics @ [] @ (''\<newline>'' @ NB @ ''\<newline>'') @ R"
    by (simp add: render_def L'_def P_def R_def)
  have e: "P @ mechanics @ [] @ ''\<newline>'' @ NB @ ''\<newline>\<newline>'' @ trimStart R = render L'"
    unfolding r' by (rule frame_self(1) [OF X Rn nb])
  show "replacedContent (render L) mechanics nb = render (L\<lparr>mechBody := ''\<newline>'' @ NB @ ''\<newline>''\<rparr>)"
    unfolding L'_def [symmetric] replacedContent_sectionAt [OF X] tr by (rule e)
  have m: "mechAt L'"
    using frame_self(2) [OF X Rn nb] unfolding mechAt_def r'
    by (simp add: L'_def P_def R_def)
  have S: "(''\<newline>'' @ NB @ ''\<newline>'') @ R \<noteq> []" "hd ((''\<newline>'' @ NB @ ''\<newline>'') @ R) = CHR 0x0A"
    by simp_all
  have Yt: "sectionAt (render L) taskClaim (preamble L) [] (taskBody L)
              (gap1 L @ mechanics @ [] @ mechBody L @ R)"
    using wf by (simp add: wellFormed_def taskAt_def R_def)
  have "sectionAt (P @ mechanics @ [] @ (''\<newline>'' @ NB @ ''\<newline>'') @ R) taskClaim (preamble L) []
          (taskBody L) (gap1 L @ mechanics @ [] @ (''\<newline>'' @ NB @ ''\<newline>'') @ R)"
    by (rule frame_before_at [OF X Yt _ S]) (simp add: P_def)
  then have t: "taskAt L'"
    unfolding taskAt_def r' by (simp add: L'_def P_def R_def)
  have Yp: "sectionAt (render L) planHeading (P @ mechanics @ [] @ mechBody L @ gap2 L) []
              (planBody L) (gap3 L @ implementation @ implBody L @ trailer L)"
    using wf by (simp add: wellFormed_def planAt_def P_def)
  have "sectionAt (P @ mechanics @ [] @ ''\<newline>'' @ NB @ ''\<newline>\<newline>'' @ trimStart R) planHeading
          (P @ mechanics @ [] @ ''\<newline>'' @ NB @ ''\<newline>'' @ gap2 L) [] (planBody L)
          (gap3 L @ implementation @ implBody L @ trailer L)"
    by (rule frame_after [OF X Yp _ np]) (simp add: R_def)
  then have p: "planAt L'"
    unfolding e planAt_def by (simp add: L'_def P_def)
  have Yi: "sectionAt (render L) implementation
              (P @ mechanics @ [] @ mechBody L @ (gap2 L @ planHeading @ planBody L @ gap3 L)) []
              (implBody L) (trailer L)"
    using wf by (simp add: wellFormed_def implAt_def P_def)
  have "sectionAt (P @ mechanics @ [] @ ''\<newline>'' @ NB @ ''\<newline>\<newline>'' @ trimStart R) implementation
          (P @ mechanics @ [] @ ''\<newline>'' @ NB @ ''\<newline>'' @ (gap2 L @ planHeading @ planBody L @ gap3 L))
          [] (implBody L) (trailer L)"
    by (rule frame_after [OF X Yi _ ni]) (simp add: R_def)
  then have i: "implAt L'"
    unfolding e implAt_def by (simp add: L'_def P_def)
  from t m p i show "wellFormed (L\<lparr>mechBody := ''\<newline>'' @ NB @ ''\<newline>''\<rparr>)"
    unfolding L'_def [symmetric] wellFormed_def by simp
qed

lemma sublist_existing:
  assumes "sublist Y (trimEnd (tl M))"
  shows "sublist Y M"
proof -
  from assms have "sublist Y (tl M)" by (rule sublist_trimEnd)
  moreover have "sublist (tl M) M" by (cases M) (simp_all add: sublist_Cons_right)
  ultimately show ?thesis by (rule sublist_order.order.trans)
qed

lemma task_appended:
  assumes wf: "wellFormed L"
    and ne: "\<not> sublist mechanics entry" "\<not> sublist planHeading entry"
      "\<not> sublist implementation entry"
  defines "NB \<equiv> (if trimEnd (tl (taskBody L)) \<noteq> []
                  then trimEnd (tl (taskBody L)) @ ''\<newline>'' @ entry else entry)"
  shows "appendedContent (render L) taskClaim entry
           = render (L\<lparr>taskBody := ''\<newline>'' @ NB @ ''\<newline>''\<rparr>)"
    and "mechAt (L\<lparr>taskBody := ''\<newline>'' @ NB @ ''\<newline>''\<rparr>)"
    and "planAt (L\<lparr>taskBody := ''\<newline>'' @ NB @ ''\<newline>''\<rparr>)"
    and "implAt (L\<lparr>taskBody := ''\<newline>'' @ NB @ ''\<newline>''\<rparr>)"
proof -
  define R where "R = gap1 L @ mechanics @ mechBody L @ gap2 L @ planHeading @ planBody L @ gap3 L
                        @ implementation @ implBody L @ trailer L"
  define L' where "L' = L\<lparr>taskBody := ''\<newline>'' @ NB @ ''\<newline>''\<rparr>"
  have X: "sectionAt (render L) taskClaim (preamble L) [] (taskBody L) R"
    using wf by (simp add: wellFormed_def taskAt_def R_def)
  have Rn: "R \<noteq> []" by (simp add: R_def heading_nonempty)
  from X Rn have Rm: "prefix ''\<newline>## '' R" by (simp add: sectionAt_def startsWith_prefix)
  have r': "render L' = preamble L @ taskClaim @ [] @ (''\<newline>'' @ NB @ ''\<newline>'') @ R"
    by (simp add: render_def L'_def R_def)
  have e: "preamble L @ taskClaim @ [] @ ''\<newline>'' @ NB @ ''\<newline>\<newline>'' @ trimStart R = render L'"
    unfolding r' using written_shape [of R NB] Rm Rn by simp
  show "appendedContent (render L) taskClaim entry
           = render (L\<lparr>taskBody := ''\<newline>'' @ NB @ ''\<newline>''\<rparr>)"
    unfolding L'_def [symmetric] appendedContent_sectionAt [OF X] NB_def [symmetric] by (rule e)
  have Ym: "sectionAt (render L) mechanics (preamble L @ taskClaim @ [] @ taskBody L @ gap1 L) []
              (mechBody L)
              (gap2 L @ planHeading @ planBody L @ gap3 L @ implementation @ implBody L @ trailer L)"
    using wf by (simp add: wellFormed_def mechAt_def)
  have Yp: "sectionAt (render L) planHeading
              (preamble L @ taskClaim @ [] @ taskBody L @ (gap1 L @ mechanics @ mechBody L @ gap2 L)) []
              (planBody L) (gap3 L @ implementation @ implBody L @ trailer L)"
    using wf by (simp add: wellFormed_def planAt_def)
  have Yi: "sectionAt (render L) implementation
              (preamble L @ taskClaim @ [] @ taskBody L
               @ (gap1 L @ mechanics @ mechBody L @ gap2 L @ planHeading @ planBody L @ gap3 L)) []
              (implBody L) (trailer L)"
    using wf by (simp add: wellFormed_def implAt_def)
  have free: "\<not> sublist Y NB"
    if Y: "Y \<noteq> []" "CHR 0x0A \<notin> set Y" "\<not> sublist Y entry"
      and P: "\<not> sublist Y (preamble L @ taskClaim @ [] @ taskBody L @ G)" for Y G
  proof -
    have "\<not> sublist Y (taskBody L)"
    proof
      assume "sublist Y (taskBody L)"
      moreover have "sublist (taskBody L) ((preamble L @ taskClaim) @ taskBody L @ G)"
        by (rule sublist_appendI)
      ultimately have "sublist Y ((preamble L @ taskClaim) @ taskBody L @ G)"
        by (rule sublist_order.order.trans)
      with P show False by simp
    qed
    then have n: "\<not> sublist Y (trimEnd (tl (taskBody L)))" using sublist_existing by blast
    have "sublist Y (trimEnd (tl (taskBody L)) @ CHR 0x0A # entry)
            \<longleftrightarrow> sublist Y (trimEnd (tl (taskBody L))) \<or> sublist Y entry"
      by (rule sublist_sep [OF Y(2,1)])
    with n Y(3) show ?thesis by (simp add: NB_def)
  qed
  have fm: "\<not> sublist mechanics NB"
    using Ym ne(1) by (intro free [where G = "gap1 L"]) (simp_all add: sectionAt_def includesStr_sublist)
  have fp: "\<not> sublist planHeading NB"
    using Yp ne(2)
    by (intro free [where G = "gap1 L @ mechanics @ mechBody L @ gap2 L"])
       (simp_all add: sectionAt_def includesStr_sublist)
  have fi: "\<not> sublist implementation NB"
    using Yi ne(3)
    by (intro free [where G = "gap1 L @ mechanics @ mechBody L @ gap2 L @ planHeading @ planBody L @ gap3 L"])
       (simp_all add: sectionAt_def includesStr_sublist)
  have "sectionAt (preamble L @ taskClaim @ [] @ ''\<newline>'' @ NB @ ''\<newline>\<newline>'' @ trimStart R) mechanics
          (preamble L @ taskClaim @ [] @ ''\<newline>'' @ NB @ ''\<newline>'' @ gap1 L) [] (mechBody L)
          (gap2 L @ planHeading @ planBody L @ gap3 L @ implementation @ implBody L @ trailer L)"
    by (rule frame_after [OF X Ym _ fm]) (simp add: R_def)
  then have "mechAt L'" unfolding e mechAt_def by (simp add: L'_def)
  then show "mechAt (L\<lparr>taskBody := ''\<newline>'' @ NB @ ''\<newline>''\<rparr>)" by (simp add: L'_def)
  have "sectionAt (preamble L @ taskClaim @ [] @ ''\<newline>'' @ NB @ ''\<newline>\<newline>'' @ trimStart R) planHeading
          (preamble L @ taskClaim @ [] @ ''\<newline>'' @ NB @ ''\<newline>''
           @ (gap1 L @ mechanics @ mechBody L @ gap2 L)) [] (planBody L)
          (gap3 L @ implementation @ implBody L @ trailer L)"
    by (rule frame_after [OF X Yp _ fp]) (simp add: R_def)
  then have "planAt L'" unfolding e planAt_def by (simp add: L'_def)
  then show "planAt (L\<lparr>taskBody := ''\<newline>'' @ NB @ ''\<newline>''\<rparr>)" by (simp add: L'_def)
  have "sectionAt (preamble L @ taskClaim @ [] @ ''\<newline>'' @ NB @ ''\<newline>\<newline>'' @ trimStart R) implementation
          (preamble L @ taskClaim @ [] @ ''\<newline>'' @ NB @ ''\<newline>''
           @ (gap1 L @ mechanics @ mechBody L @ gap2 L @ planHeading @ planBody L @ gap3 L)) []
          (implBody L) (trailer L)"
    by (rule frame_after [OF X Yi _ fi]) (simp add: R_def)
  then have "implAt L'" unfolding e implAt_def by (simp add: L'_def)
  then show "implAt (L\<lparr>taskBody := ''\<newline>'' @ NB @ ''\<newline>''\<rparr>)" by (simp add: L'_def)
qed

lemma impl_appended:
  assumes m: "mechAt L" and p: "planAt L" and i: "implAt L"
  shows "sectionSlice (appendedContent (render L) implementation entry) mechanics
           = Some (mechanics @ mechBody L)"
    and "sectionSlice (appendedContent (render L) implementation entry) planHeading
           = Some (planHeading @ planBody L)"
    and "suffix (entry @ ''\<newline>\<newline>'' @ trimStart (trailer L))
           (appendedContent (render L) implementation entry)"
proof -
  define P where "P = preamble L @ taskClaim @ taskBody L @ gap1 L @ mechanics @ mechBody L @ gap2 L
                        @ planHeading @ planBody L @ gap3 L"
  define NB where "NB = (if trimEnd (tl (implBody L)) \<noteq> []
                         then trimEnd (tl (implBody L)) @ ''\<newline>'' @ entry else entry)"
  define S' where "S' = ''\<newline>'' @ NB @ ''\<newline>\<newline>'' @ trimStart (trailer L)"
  have X: "sectionAt (render L) implementation P [] (implBody L) (trailer L)"
    using i by (simp add: implAt_def P_def)
  have a: "appendedContent (render L) implementation entry = P @ implementation @ [] @ S'"
    unfolding appendedContent_sectionAt [OF X] NB_def [symmetric] S'_def by simp
  have S: "S' \<noteq> []" "hd S' = CHR 0x0A" by (simp_all add: S'_def)
  have Ym: "sectionAt (render L) mechanics (preamble L @ taskClaim @ taskBody L @ gap1 L) []
              (mechBody L)
              ((gap2 L @ planHeading @ planBody L @ gap3 L) @ implementation @ [] @ implBody L @ trailer L)"
    using m by (simp add: mechAt_def)
  have "sectionSlice (P @ implementation @ [] @ S') mechanics = Some (mechanics @ [] @ mechBody L)"
    by (rule frame_before [OF X Ym _ S]) (simp add: P_def)
  then show "sectionSlice (appendedContent (render L) implementation entry) mechanics
           = Some (mechanics @ mechBody L)"
    by (simp add: a)
  have Yp: "sectionAt (render L) planHeading
              (preamble L @ taskClaim @ taskBody L @ gap1 L @ mechanics @ mechBody L @ gap2 L) []
              (planBody L) (gap3 L @ implementation @ [] @ implBody L @ trailer L)"
    using p by (simp add: planAt_def)
  have "sectionSlice (P @ implementation @ [] @ S') planHeading = Some (planHeading @ [] @ planBody L)"
    by (rule frame_before [OF X Yp _ S]) (simp add: P_def)
  then show "sectionSlice (appendedContent (render L) implementation entry) planHeading
           = Some (planHeading @ planBody L)"
    by (simp add: a)
  have "P @ implementation @ [] @ S'
          = (P @ implementation @ ''\<newline>''
             @ (if trimEnd (tl (implBody L)) \<noteq> [] then trimEnd (tl (implBody L)) @ ''\<newline>'' else []))
            @ (entry @ ''\<newline>\<newline>'' @ trimStart (trailer L))"
    by (simp add: S'_def NB_def)
  then show "suffix (entry @ ''\<newline>\<newline>'' @ trimStart (trailer L))
           (appendedContent (render L) implementation entry)"
    unfolding a by (metis suffixI)
qed

subsection \<open>Trimming\<close>

lemma trim_id:
  assumes "s \<noteq> []" "\<not> isWhiteSpace (hd s)" "\<not> isWhiteSpace (last s)"
  shows "trim s = s"
proof -
  from assms(1,2) have 1: "trimStart s = s" by (cases s) (simp_all add: trimStart_def)
  from assms(1,3) have "dropWhile isWhiteSpace (rev s) = rev s"
    by (cases "rev s") (simp_all add: hd_rev)
  then have "trimEnd s = s" by (simp add: trimEnd_def)
  with 1 show ?thesis by (simp add: trim_def)
qed

lemma trimEnd_ends:
  assumes "trimEnd s \<noteq> []"
  shows "\<not> isWhiteSpace (last (trimEnd s))" "hd (trimEnd s) = hd s"
proof -
  from assms have n: "dropWhile isWhiteSpace (rev s) \<noteq> []" by (simp add: trimEnd_def)
  then have "\<not> isWhiteSpace (hd (dropWhile isWhiteSpace (rev s)))" by (rule hd_dropWhile)
  with n show "\<not> isWhiteSpace (last (trimEnd s))" by (simp add: trimEnd_def last_rev)
  have "rev s = takeWhile isWhiteSpace (rev s) @ dropWhile isWhiteSpace (rev s)" by simp
  then have "s = rev (dropWhile isWhiteSpace (rev s)) @ rev (takeWhile isWhiteSpace (rev s))"
    by (metis rev_append rev_rev_ident)
  then have "s = trimEnd s @ rev (takeWhile isWhiteSpace (rev s))" by (simp add: trimEnd_def)
  with assms show "hd (trimEnd s) = hd s" by (metis hd_append2)
qed

lemma trim_ends:
  assumes "trim s \<noteq> []"
  shows "\<not> isWhiteSpace (hd (trim s))" "\<not> isWhiteSpace (last (trim s))"
proof -
  from assms have n: "trimEnd (trimStart s) \<noteq> []" by (simp add: trim_def)
  then have "trimStart s \<noteq> []" by (auto simp: trimEnd_def)
  then have "\<not> isWhiteSpace (hd (trimStart s))"
    unfolding trimStart_def by (rule hd_dropWhile)
  with trimEnd_ends(2) [OF n] show "\<not> isWhiteSpace (hd (trim s))" by (simp add: trim_def)
  from trimEnd_ends(1) [OF n] show "\<not> isWhiteSpace (last (trim s))" by (simp add: trim_def)
qed

lemma dropWhile_ends:
  assumes "dropWhile P xs \<noteq> []"
  shows "\<not> P (hd (dropWhile P xs))" "last (dropWhile P xs) = last xs"
proof -
  show "\<not> P (hd (dropWhile P xs))" using assms by (rule hd_dropWhile)
  have "xs = takeWhile P xs @ dropWhile P xs" by simp
  with assms show "last (dropWhile P xs) = last xs" by (metis last_appendR)
qed

lemma drop_last: "drop n xs \<noteq> [] \<Longrightarrow> last (drop n xs) = last xs"
  by (simp add: last_drop)

subsection \<open>Lines\<close>

lemma splitLines_joinWith:
  assumes "\<forall>l\<in>set ls. CHR 0x0A \<notin> set l" "ls \<noteq> []"
  shows "splitLines (joinWith ''\<newline>'' ls @ ''\<newline>'') = ls @ [[]]"
  using assms
proof (induction "''\<newline>''" ls rule: joinWith.induct)
  case 1
  then show ?case by simp
next
  case (2 x)
  then show ?case using splitLines_append [of x "[]"] by simp
next
  case (3 x y ys)
  then have "splitLines (joinWith ''\<newline>'' (y # ys) @ ''\<newline>'') = (y # ys) @ [[]]" by simp
  moreover have "splitLines (x @ CHR 0x0A # (joinWith ''\<newline>'' (y # ys) @ ''\<newline>''))
      = x # splitLines (joinWith ''\<newline>'' (y # ys) @ ''\<newline>'')"
    using 3 by (intro splitLines_append) simp
  ultimately show ?case by simp
qed

lemma splitLines_nonempty: "splitLines s \<noteq> []"
  by (induction s) (auto split: list.splits)

lemma splitLines_hd_prefix: "prefix (hd (splitLines s)) s"
  by (induction s) (auto split: list.splits simp: splitLines_nonempty)

lemma splitLines_sublist: "l \<in> set (splitLines s) \<Longrightarrow> sublist l s"
proof (induction s arbitrary: l)
  case Nil
  then show ?case by simp
next
  case (Cons c cs)
  show ?case
  proof (cases "c = CHR 0x0A")
    case True
    with Cons.prems have "l = [] \<or> l \<in> set (splitLines cs)" by simp
    then show ?thesis using Cons.IH by (auto simp: sublist_Cons_right)
  next
    case False
    obtain x xs where s: "splitLines cs = x # xs"
      using splitLines_nonempty [of cs] by (cases "splitLines cs") simp_all
    with False Cons.prems have "l = c # x \<or> l \<in> set xs" by simp
    then show ?thesis
    proof
      assume l: "l = c # x"
      have "prefix x cs" using splitLines_hd_prefix [of cs] s by simp
      then show ?thesis using l by (simp add: prefix_imp_sublist)
    next
      assume "l \<in> set xs"
      then have "l \<in> set (splitLines cs)" by (simp add: s)
      then have "sublist l cs" by (rule Cons.IH)
      then show ?thesis by (simp add: sublist_Cons_right)
    qed
  qed
qed

lemma lines_no_marker:
  assumes "\<forall>l\<in>set ls. CHR 0x0A \<notin> set l \<and> (l = [] \<or> hd l \<noteq> CHR ''#'')"
  shows "\<not> sublist ''\<newline>## '' (concat (map (\<lambda>l. CHR 0x0A # l) ls))"
  using assms
proof (induction ls)
  case Nil
  then show ?case by simp
next
  case (Cons l ls)
  let ?rest = "concat (map (\<lambda>l. CHR 0x0A # l) ls)"
  from Cons have l: "CHR 0x0A \<notin> set l" "l = [] \<or> hd l \<noteq> CHR ''#''"
    and IH: "\<not> sublist ''\<newline>## '' ?rest" by simp_all
  have r: "?rest = [] \<or> hd ?rest = CHR 0x0A" by (cases ls) simp_all
  have "\<not> prefix ''## '' (l @ ?rest)"
  proof (cases l)
    case Nil
    with r show ?thesis by (cases ?rest) (auto simp: prefix_Cons)
  next
    case (Cons a as)
    with l(2) show ?thesis by (simp add: prefix_Cons)
  qed
  then have 1: "\<not> prefix ''\<newline>## '' (CHR 0x0A # l @ ?rest)" by (simp add: prefix_Cons)
  have "sublist ''\<newline>## '' (l @ ?rest) \<longleftrightarrow> sublist ''\<newline>## '' ?rest"
    by (rule sublist_skip_prefix) (use l in simp_all)
  with IH have 2: "\<not> sublist ''\<newline>## '' (l @ ?rest)" by simp
  from 1 2 show ?case by (simp add: sublist_Cons_right)
qed

lemma joinWith_concat:
  "ls \<noteq> [] \<Longrightarrow> CHR 0x0A # joinWith ''\<newline>'' ls = concat (map (\<lambda>l. CHR 0x0A # l) ls)"
  by (induction "''\<newline>''" ls rule: joinWith.induct) simp_all

subsection \<open>The plan codec\<close>

lemma validText_simps:
  assumes "validText s"
  shows "s \<noteq> []" "CHR 0x0A \<notin> set s" "dropWhile isWhiteSpace s = s"
    "\<not> isWhiteSpace (last s)" "\<not> list_ex isLineTerminator s"
proof -
  from assms show "s \<noteq> []" "\<not> isWhiteSpace (last s)" "\<not> list_ex isLineTerminator s"
    by (simp_all add: validText_def)
  from assms show "CHR 0x0A \<notin> set s"
    by (auto simp: validText_def list_ex_iff isLineTerminator_def)
  from assms show "dropWhile isWhiteSpace s = s" by (cases s) (simp_all add: validText_def)
qed

lemma char_facts:
  "\<not> isWhiteSpace CHR ''-''" "isWhiteSpace CHR '' ''"
  "lowerChar CHR ''x'' = CHR ''x''" "lowerChar CHR '' '' \<noteq> CHR ''x''"
  by code_simp+

lemma planLine_facts:
  assumes "validText (itemText it)"
  shows "trim (planLine it) = planLine it"
    "matchPlanLine (planLine it)
       = Some (if itemStatus it = Done then CHR ''x'' else CHR '' '', itemText it)"
    "CHR 0x0A \<notin> set (planLine it)" "planLine it \<noteq> []" "hd (planLine it) = CHR ''-''"
    "\<not> isWhiteSpace (last (planLine it))"
proof -
  note v = validText_simps [OF assms]
  show n: "planLine it \<noteq> []" and h: "hd (planLine it) = CHR ''-''"
    by (simp_all add: planLine_def)
  show l: "\<not> isWhiteSpace (last (planLine it))" using v(1,4) by (simp add: planLine_def)
  show "trim (planLine it) = planLine it"
    using n h l by (intro trim_id) (simp_all add: char_facts)
  show "CHR 0x0A \<notin> set (planLine it)" using v(2) by (simp add: planLine_def)
  define m where "m = (if itemStatus it = Done then CHR ''x'' else CHR '' '')"
  have e: "planLine it = CHR ''-'' # CHR '' '' # CHR ''['' # m # CHR '']'' # CHR '' '' # itemText it"
    by (simp add: planLine_def m_def)
  have m: "m = CHR '' '' \<or> m = CHR ''x''" by (simp add: m_def)
  have d: "dropWhile isWhiteSpace (drop 5 (planLine it)) = itemText it"
    using v(3) by (simp add: e char_facts)
  have "matchPlanLine (planLine it) = Some (m, itemText it)"
    unfolding matchPlanLine_def d Let_def using v(1,5) m
    by (auto simp: e startsWith_def)
  then show "matchPlanLine (planLine it)
       = Some (if itemStatus it = Done then CHR ''x'' else CHR '' '', itemText it)"
    by (simp add: m_def)
qed

lemma planItemsOfLines_written:
  assumes "list_all (\<lambda>it. validText (itemText it)) its"
  shows "planView (planItemsOfLines k (map planLine its @ [[]])) = planView its"
  using assms
proof (induction its arbitrary: k)
  case Nil
  have "trim [] = []" by (simp add: trim_def trimStart_def trimEnd_def)
  then show ?case by (simp add: planView_def matchPlanLine_def startsWith_def)
next
  case (Cons it its)
  then have v: "validText (itemText it)" and IH: "planView (planItemsOfLines (Suc k) (map planLine its @ [[]])) = planView its"
    by simp_all
  have s: "itemStatus it \<noteq> Done \<Longrightarrow> Todo = itemStatus it" by (cases "itemStatus it") simp_all
  show ?case
    using IH s by (simp add: planLine_facts(1,2) [OF v] planView_def char_facts)
qed

lemma matchPlanLine_text:
  assumes "matchPlanLine (trim l) = Some (m, tx)"
  shows "validText tx" "sublist tx l"
proof -
  let ?t = "trim l"
  from assms have t: "tx = dropWhile isWhiteSpace (drop 5 ?t)" "tx \<noteq> []"
    "\<not> list_ex isLineTerminator tx"
    by (auto simp: matchPlanLine_def Let_def split: if_splits)
  from t(1,2) have d: "drop 5 ?t \<noteq> []" by auto
  then have tn: "?t \<noteq> []" by auto
  have "last tx = last (drop 5 ?t)" using dropWhile_ends(2) t(1,2) by blast
  also have "\<dots> = last ?t" using d by (rule drop_last)
  finally have "\<not> isWhiteSpace (last tx)" using trim_ends(2) [OF tn] by simp
  moreover have "\<not> isWhiteSpace (hd tx)" using dropWhile_ends(1) t(1,2) by blast
  ultimately show "validText tx" using t(2,3) by (simp add: validText_def)
  have "sublist tx (drop 5 ?t)" unfolding t(1) by (rule sublist_dropWhile)
  moreover have "sublist (drop 5 ?t) ?t" by (rule sublist_drop)
  ultimately have "sublist tx ?t" by (rule sublist_order.order.trans)
  then show "sublist tx l" by (rule sublist_trim)
qed

lemma planItemsOfLines_items:
  assumes "it \<in> set (planItemsOfLines k ls)"
  shows "validText (itemText it) \<and> (\<exists>l\<in>set ls. sublist (itemText it) l)"
  using assms
proof (induction ls arbitrary: k)
  case Nil
  then show ?case by simp
next
  case (Cons l ls)
  show ?case
  proof (cases "matchPlanLine (trim l)")
    case None
    with Cons.prems have "it \<in> set (planItemsOfLines (Suc k) ls)" by simp
    from Cons.IH [OF this] show ?thesis by auto
  next
    case (Some a)
    obtain m tx where a: "a = (m, tx)" by (cases a)
    have "planItemsOfLines k (l # ls)
            = \<lparr>itemId = ''S'' @ string_of_nat (k + 1), itemText = tx,
               itemStatus = (if lowerChar m = CHR ''x'' then Done else Todo)\<rparr>
              # planItemsOfLines (Suc k) ls"
      by (simp add: Some a del: string_of_nat.simps)
    with Cons.prems
    have "it = \<lparr>itemId = ''S'' @ string_of_nat (k + 1), itemText = tx,
               itemStatus = (if lowerChar m = CHR ''x'' then Done else Todo)\<rparr>
          \<or> it \<in> set (planItemsOfLines (Suc k) ls)"
      by (simp only: set_simps insert_iff)
    then have "itemText it = tx \<or> it \<in> set (planItemsOfLines (Suc k) ls)" by (auto simp del: planItemsOfLines.simps string_of_nat.simps)
    then show ?thesis
    proof
      assume "itemText it = tx"
      with matchPlanLine_text [OF Some [unfolded a]] show ?thesis by simp
    next
      assume "it \<in> set (planItemsOfLines (Suc k) ls)"
      from Cons.IH [OF this] show ?thesis by auto
    qed
  qed
qed

lemma heading_lines:
  "matchPlanLine (trim planHeading) = None" "startsWith (trim mechanics) ''##''"
  "CHR 0x0A \<notin> set planHeading" "CHR 0x0A \<notin> set mechanics"
  by code_simp+

lemma plan_section_items:
  assumes "sectionAt c planHeading P [] M R"
  shows "planItemsOfContent c = (if M = [] then [] else planItemsOfLines 1 (splitLines (tl M)))"
proof -
  from assms have M: "M = [] \<or> hd M = CHR 0x0A" by (simp add: sectionAt_def)
  have "sectionSlice c planHeading = Some (planHeading @ M)"
    using sectionSlice_sectionAt [OF assms] by simp
  moreover have "splitLines (planHeading @ M)
      = planHeading # (if M = [] then [] else splitLines (tl M))"
    by (rule splitLines_region [OF heading_lines(3) M])
  ultimately show ?thesis by (simp add: planItemsOfContent_def heading_lines(1))
qed

subsection \<open>List bodies\<close>

lemma joinWith_ends:
  assumes "ls \<noteq> []" "\<forall>l\<in>set ls. l \<noteq> []"
  shows "joinWith sep ls \<noteq> []" "hd (joinWith sep ls) = hd (hd ls)"
    "last (joinWith sep ls) = last (last ls)"
  using assms by (induction sep ls rule: joinWith.induct) auto

lemma list_body:
  assumes ne: "ls \<noteq> []"
    and l: "\<forall>l\<in>set ls. CHR 0x0A \<notin> set l \<and> l \<noteq> [] \<and> hd l = CHR ''-'' \<and> \<not> isWhiteSpace (last l)"
  shows "trim (joinWith ''\<newline>'' ls) = joinWith ''\<newline>'' ls"
    "\<not> sublist ''\<newline>## '' (CHR 0x0A # joinWith ''\<newline>'' ls)"
    "splitLines (joinWith ''\<newline>'' ls @ ''\<newline>'') = ls @ [[]]"
proof -
  from l have n: "\<forall>l\<in>set ls. l \<noteq> []" by simp
  from ne l have "hd (hd ls) = CHR ''-''" "\<not> isWhiteSpace (last (last ls))" by simp_all
  with joinWith_ends [OF ne n, of "''\<newline>''"]
  show "trim (joinWith ''\<newline>'' ls) = joinWith ''\<newline>'' ls"
    by (intro trim_id) (simp_all add: char_facts)
  have "\<forall>l\<in>set ls. CHR 0x0A \<notin> set l \<and> (l = [] \<or> hd l \<noteq> CHR ''#'')" using l by simp
  from lines_no_marker [OF this]
  show "\<not> sublist ''\<newline>## '' (CHR 0x0A # joinWith ''\<newline>'' ls)"
    by (simp add: joinWith_concat [OF ne])
  show "splitLines (joinWith ''\<newline>'' ls @ ''\<newline>'') = ls @ [[]]"
    using l by (intro splitLines_joinWith ne) simp
qed

subsection \<open>The invariant codec\<close>

lemma suffix_last: "suffix a b \<Longrightarrow> a \<noteq> [] \<Longrightarrow> last a = last b"
  by (auto simp: suffix_def)

lemma tag_facts:
  "toLowerCase ''satisfied'' = ''satisfied''" "toLowerCase ''violated]'' \<noteq> ''satisfied''"
  "toLowerCase ''violated'' = ''violated''" "toLowerCase ''unknown] '' \<noteq> ''satisfied''"
  "toLowerCase ''unknown]'' \<noteq> ''violated''" "toLowerCase ''unknown'' = ''unknown''"
  by code_simp+

lemma matchTag_statusTag:
  "matchTag (statusTag st @ CHR '']'' # CHR '' '' # d) = Some (st, CHR '']'' # CHR '' '' # d)"
  by (cases st) (simp_all add: matchTag_def statusTag_def tag_facts)

lemma invariantLine_facts:
  assumes "validText (description i)"
  shows "trim (invariantLine i) = invariantLine i"
    "matchInvariantLine (invariantLine i) = Some (invStatus i, description i)"
    "CHR 0x0A \<notin> set (invariantLine i)" "invariantLine i \<noteq> []"
    "hd (invariantLine i) = CHR ''-''" "\<not> isWhiteSpace (last (invariantLine i))"
    "\<not> startsWith (invariantLine i) ''##''"
proof -
  note v = validText_simps [OF assms]
  have e: "invariantLine i
     = CHR ''-'' # CHR '' '' # CHR ''['' # statusTag (invStatus i) @ CHR '']'' # CHR '' '' # description i"
    by (simp add: invariantLine_def)
  show n: "invariantLine i \<noteq> []" and h: "hd (invariantLine i) = CHR ''-''"
    by (simp_all add: e)
  show l: "\<not> isWhiteSpace (last (invariantLine i))" using v(1,4) by (simp add: e)
  show "trim (invariantLine i) = invariantLine i"
    using n h l by (intro trim_id) (simp_all add: char_facts)
  have "CHR 0x0A \<notin> set (statusTag (invStatus i))"
    by (cases "invStatus i") (simp_all add: statusTag_def)
  then show "CHR 0x0A \<notin> set (invariantLine i)" using v(2) by (simp add: e)
  show "\<not> startsWith (invariantLine i) ''##''" by (simp add: e startsWith_def)
  have d: "dropWhile isWhiteSpace (drop 1 (CHR '']'' # CHR '' '' # description i)) = description i"
    using v(3) by (simp add: char_facts)
  show "matchInvariantLine (invariantLine i) = Some (invStatus i, description i)"
    unfolding matchInvariantLine_def e
    using v(1,5) by (simp add: startsWith_def matchTag_statusTag d [simplified] Let_def)
qed

lemma invariantsOfLines_written:
  assumes "list_all (\<lambda>i. validText (description i)) invs"
  shows "invariantView (invariantsOfLines k (map invariantLine invs @ [[]])) = invariantView invs"
  using assms
proof (induction invs arbitrary: k)
  case Nil
  have "trim [] = []" by (simp add: trim_def trimStart_def trimEnd_def)
  then show ?case by (simp add: invariantView_def)
next
  case (Cons i invs)
  then have v: "validText (description i)"
    and IH: "invariantView (invariantsOfLines (Suc k) (map invariantLine invs @ [[]])) = invariantView invs"
    by simp_all
  note f = invariantLine_facts [OF v]
  show ?case
    using IH by (simp add: f(1,2,4,7) invariantView_def Let_def del: string_of_nat.simps)
qed

lemma matchTag_suffix: "matchTag r = Some (st, r') \<Longrightarrow> suffix r' r"
  by (auto simp: matchTag_def suffix_drop split: if_splits)

lemma matchInvariantLine_text:
  assumes "matchInvariantLine t = Some (st, tx)"
  shows "tx \<noteq> []" "\<not> isWhiteSpace (hd tx)" "suffix tx t"
proof -
  from assms obtain r where r: "matchTag (drop 3 t) = Some (st, r)"
    and tx: "tx = dropWhile isWhiteSpace (drop 1 r)" "tx \<noteq> []"
    by (auto simp: matchInvariantLine_def Let_def split: if_splits option.splits)
  show "tx \<noteq> []" by (rule tx(2))
  show "\<not> isWhiteSpace (hd tx)" using dropWhile_ends(1) tx by blast
  have "suffix tx (drop 1 r)" unfolding tx(1) by (rule suffix_dropWhile)
  moreover have "suffix (drop 1 r) r" by (rule suffix_drop)
  moreover have "suffix r (drop 3 t)" using r by (rule matchTag_suffix)
  moreover have "suffix (drop 3 t) t" by (rule suffix_drop)
  ultimately show "suffix tx t" by (meson suffix_order.trans)
qed

lemma stripDash_text:
  "suffix (stripDash t) t" "stripDash t \<noteq> [] \<Longrightarrow> t \<noteq> [] \<Longrightarrow> \<not> isWhiteSpace (hd t) \<Longrightarrow> \<not> isWhiteSpace (hd (stripDash t))"
proof -
  have "suffix (dropWhile isWhiteSpace (drop 1 t)) (drop 1 t)" by (rule suffix_dropWhile)
  moreover have "suffix (drop 1 t) t" by (rule suffix_drop)
  ultimately have "suffix (dropWhile isWhiteSpace (drop 1 t)) t" by (meson suffix_order.trans)
  then show "suffix (stripDash t) t" by (simp add: stripDash_def)
  show "stripDash t \<noteq> [] \<Longrightarrow> t \<noteq> [] \<Longrightarrow> \<not> isWhiteSpace (hd t) \<Longrightarrow> \<not> isWhiteSpace (hd (stripDash t))"
    using dropWhile_ends(1) [of isWhiteSpace "drop 1 t"] by (auto simp: stripDash_def)
qed

lemma description_of_line:
  assumes d: "d \<noteq> []" and s: "suffix d (trim l)" and h: "\<not> isWhiteSpace (hd d)"
  shows "\<not> isWhiteSpace (last d)" "sublist d l"
proof -
  from d s have tn: "trim l \<noteq> []" by (auto simp: suffix_def)
  from suffix_last [OF s d] trim_ends(2) [OF tn] show "\<not> isWhiteSpace (last d)" by simp
  from s have "sublist d (trim l)" by (rule suffix_imp_sublist)
  then show "sublist d l" by (rule sublist_trim)
qed

lemma invariantsOfLines_items:
  assumes "i \<in> set (invariantsOfLines k ls)"
  shows "(description i \<noteq> [] \<longrightarrow> \<not> isWhiteSpace (hd (description i)) \<and> \<not> isWhiteSpace (last (description i)))
         \<and> (\<exists>l\<in>set ls. sublist (description i) l)"
  using assms
proof (induction ls arbitrary: k)
  case Nil
  then show ?case by simp
next
  case (Cons l ls)
  let ?t = "trim l"
  have tail: "?case" if "i \<in> set (invariantsOfLines (Suc k) ls)"
    using Cons.IH [OF that] by auto
  have here: "?case" if dd: "suffix (description i) ?t"
    "description i \<noteq> [] \<longrightarrow> \<not> isWhiteSpace (hd (description i))"
  proof -
    have "sublist (description i) l"
      using dd(1) by (meson suffix_imp_sublist sublist_trim)
    moreover have "\<not> isWhiteSpace (last (description i))" if "description i \<noteq> []"
      using description_of_line(1) [OF that dd(1)] dd(2) that by simp
    ultimately show ?thesis using dd(2) by auto
  qed
  show ?case
  proof (cases "?t = [] \<or> startsWith ?t ''##''")
    case True
    with Cons.prems have "i \<in> set (invariantsOfLines (Suc k) ls)" by (simp add: Let_def)
    then show ?thesis by (rule tail)
  next
    case False
    then have tn: "?t \<noteq> []" by simp
    show ?thesis
    proof (cases "matchInvariantLine ?t")
      case (Some a)
      obtain st tx where a: "a = (st, tx)" by (cases a)
      have "invariantsOfLines k (l # ls)
              = \<lparr>invId = ''I'' @ string_of_nat (k + 1), description = tx, invStatus = st\<rparr>
                # invariantsOfLines (Suc k) ls"
        using False by (simp add: Some a Let_def del: string_of_nat.simps)
      with Cons.prems
      have "i = \<lparr>invId = ''I'' @ string_of_nat (k + 1), description = tx, invStatus = st\<rparr>
            \<or> i \<in> set (invariantsOfLines (Suc k) ls)"
        by (simp only: set_simps insert_iff)
      then have "description i = tx \<or> i \<in> set (invariantsOfLines (Suc k) ls)"
        by (auto simp del: invariantsOfLines.simps string_of_nat.simps)
      then show ?thesis
      proof
        assume "description i = tx"
        with matchInvariantLine_text [OF Some [unfolded a]] show ?thesis
          by (intro here) simp_all
      next
        assume "i \<in> set (invariantsOfLines (Suc k) ls)"
        then show ?thesis by (rule tail)
      qed
    next
      case None
      show ?thesis
      proof (cases "\<not> endsWith ?t '': _'' \<and> \<not> includesStr ?t ''pending''")
        case True
        have "invariantsOfLines k (l # ls)
              = \<lparr>invId = ''I'' @ string_of_nat (k + 1), description = stripDash ?t,
                 invStatus = Unknown\<rparr> # invariantsOfLines (Suc k) ls"
          using False True by (simp add: None Let_def del: string_of_nat.simps)
        with Cons.prems
        have "i = \<lparr>invId = ''I'' @ string_of_nat (k + 1), description = stripDash ?t,
                 invStatus = Unknown\<rparr>
            \<or> i \<in> set (invariantsOfLines (Suc k) ls)"
          by (simp only: set_simps insert_iff)
        then have "description i = stripDash ?t \<or> i \<in> set (invariantsOfLines (Suc k) ls)"
          by (auto simp del: invariantsOfLines.simps string_of_nat.simps)
        then show ?thesis
        proof
          assume e: "description i = stripDash ?t"
          show ?thesis
            using stripDash_text [of ?t] trim_ends(1) [OF tn] tn
            by (intro here) (simp_all add: e)
        next
          assume "i \<in> set (invariantsOfLines (Suc k) ls)"
          then show ?thesis by (rule tail)
        qed
      next
        case F2: False
        with False None Cons.prems have "i \<in> set (invariantsOfLines (Suc k) ls)"
          by (simp add: Let_def del: string_of_nat.simps)
        then show ?thesis by (rule tail)
      qed
    qed
  qed
qed

lemma mech_section_invariants:
  assumes "sectionAt c mechanics P [] M R"
  shows "invariantsOfContent c = (if M = [] then [] else invariantsOfLines 1 (splitLines (tl M)))"
proof -
  from assms have M: "M = [] \<or> hd M = CHR 0x0A" by (simp add: sectionAt_def)
  have "sectionSlice c mechanics = Some (mechanics @ M)"
    using sectionSlice_sectionAt [OF assms] by simp
  moreover have "splitLines (mechanics @ M)
      = mechanics # (if M = [] then [] else splitLines (tl M))"
    by (rule splitLines_region [OF heading_lines(4) M])
  ultimately show ?thesis
    by (simp add: invariantsOfContent_def heading_lines(2) Let_def del: string_of_nat.simps)
qed

subsection \<open>The first unknown invariant\<close>

lemma findIndex_first:
  assumes "findIndex P xs = Some k"
  shows "k < length xs" "P (xs ! k)" "\<forall>j<k. \<not> P (xs ! j)"
  using assms
proof (induction xs arbitrary: k)
  case Nil
  { case 1 then show ?case by simp }
  { case 2 then show ?case by simp }
  { case 3 then show ?case by simp }
next
  case (Cons x xs)
  { case 1 then show ?case using Cons.IH(1) by (auto split: if_splits) }
  { case 2 then show ?case using Cons.IH(2) by (auto split: if_splits) }
  { case 3 then show ?case using Cons.IH(3) by (auto split: if_splits simp: less_Suc_eq_0_disj) }
qed

lemma findIndex_none: "findIndex P xs = None \<longleftrightarrow> \<not> list_ex P xs"
  by (induction xs) auto

lemma flip_view:
  assumes "k < length invs"
  shows "invariantView (invs[k := (invs ! k)\<lparr>invStatus := Satisfied\<rparr>])
           = (invariantView invs)[k := (description (invs ! k), Satisfied)]"
    "list_all (\<lambda>i. validText (description i)) invs
       \<Longrightarrow> list_all (\<lambda>i. validText (description i)) (invs[k := (invs ! k)\<lparr>invStatus := Satisfied\<rparr>])"
    "\<forall>i\<in>set (invs[k := (invs ! k)\<lparr>invStatus := Satisfied\<rparr>]). \<exists>j\<in>set invs. description i = description j"
proof -
  show "invariantView (invs[k := (invs ! k)\<lparr>invStatus := Satisfied\<rparr>])
           = (invariantView invs)[k := (description (invs ! k), Satisfied)]"
    by (simp add: invariantView_def map_update)
  have s: "set (invs[k := (invs ! k)\<lparr>invStatus := Satisfied\<rparr>])
             \<subseteq> insert ((invs ! k)\<lparr>invStatus := Satisfied\<rparr>) (set invs)"
    by (rule set_update_subset_insert)
  have m: "invs ! k \<in> set invs" using assms by simp
  show "list_all (\<lambda>i. validText (description i)) invs
       \<Longrightarrow> list_all (\<lambda>i. validText (description i)) (invs[k := (invs ! k)\<lparr>invStatus := Satisfied\<rparr>])"
    using s m unfolding list_all_iff by fastforce
  show "\<forall>i\<in>set (invs[k := (invs ! k)\<lparr>invStatus := Satisfied\<rparr>]). \<exists>j\<in>set invs. description i = description j"
    using s m by fastforce
qed

subsection \<open>A completed step on a document in the template's order\<close>

lemma no_hash_no_heading:
  assumes "CHR ''#'' \<notin> set s"
  shows "\<not> sublist mechanics s" "\<not> sublist planHeading s" "\<not> sublist implementation s"
proof -
  have g: "\<not> sublist h s" if "h \<noteq> []" "hd h = CHR ''#''" for h
  proof
    assume "sublist h s"
    then have "set h \<subseteq> set s" by (rule set_mono_sublist)
    moreover have "hd h \<in> set h" using that(1) by simp
    ultimately show False using assms that(2) by auto
  qed
  show "\<not> sublist mechanics s" by (rule g) (simp_all add: mechanics_def)
  show "\<not> sublist planHeading s" by (rule g) (simp_all add: planHeading_def)
  show "\<not> sublist implementation s" by (rule g) (simp_all add: implementation_def)
qed

lemma heading_shape:
  "implementation \<noteq> []" "CHR 0x0A \<notin> set implementation" "hd implementation \<notin> set ''- [x] ''"
  "hd implementation \<notin> set ''- [ ] ''"
  "planHeading \<noteq> []" "CHR 0x0A \<notin> set planHeading"
  by (simp_all add: implementation_def planHeading_def)

lemma heading_not_in_tag:
  "hd implementation \<notin> set (''- ['' @ statusTag st @ ''] '')"
  "hd planHeading \<notin> set (''- ['' @ statusTag st @ ''] '')"
  by (cases st; simp add: implementation_def planHeading_def statusTag_def)+

lemma plan_slice_items:
  assumes "sectionSlice c planHeading = Some (planHeading @ M)" "M = [] \<or> hd M = CHR 0x0A"
  shows "planItemsOfContent c = (if M = [] then [] else planItemsOfLines 1 (splitLines (tl M)))"
proof -
  have "splitLines (planHeading @ M) = planHeading # (if M = [] then [] else splitLines (tl M))"
    by (rule splitLines_region [OF heading_lines(3) assms(2)])
  with assms(1) show ?thesis
    by (simp add: planItemsOfContent_def heading_lines(1) del: string_of_nat.simps)
qed

lemma mech_slice_invariants:
  assumes "sectionSlice c mechanics = Some (mechanics @ M)" "M = [] \<or> hd M = CHR 0x0A"
  shows "invariantsOfContent c = (if M = [] then [] else invariantsOfLines 1 (splitLines (tl M)))"
proof -
  have "splitLines (mechanics @ M) = mechanics # (if M = [] then [] else splitLines (tl M))"
    by (rule splitLines_region [OF heading_lines(4) assms(2)])
  with assms(1) show ?thesis
    by (simp add: invariantsOfContent_def heading_lines(2) Let_def del: string_of_nat.simps)
qed

lemma body_sublist:
  assumes "M \<noteq> []" "l \<in> set (splitLines (tl M))" "sublist t l"
  shows "sublist t M"
proof -
  from assms(2) have "sublist l (tl M)" by (rule splitLines_sublist)
  moreover have "sublist (tl M) M" using assms(1) by (cases M) (simp_all add: sublist_Cons_right)
  ultimately show ?thesis using assms(3) by (meson sublist_order.order.trans)
qed

text \<open>What a document in the template's order holds in its Plan and Mechanics sections.\<close>

lemma wellFormed_plan:
  assumes wf: "wellFormed L" and it: "it \<in> set (planItemsOfContent (render L))"
  shows "validText (itemText it)" "\<not> sublist implementation (itemText it)"
proof -
  from wf have pa: "sectionAt (render L) planHeading
       (preamble L @ taskClaim @ taskBody L @ gap1 L @ mechanics @ mechBody L @ gap2 L) []
       (planBody L) (gap3 L @ implementation @ implBody L @ trailer L)"
    by (simp add: wellFormed_def planAt_def)
  from wf have ia: "\<not> sublist implementation
       ((preamble L @ taskClaim @ taskBody L @ gap1 L @ mechanics @ mechBody L @ gap2 L
        @ planHeading) @ planBody L @ gap3 L)"
    by (simp add: wellFormed_def implAt_def sectionAt_def includesStr_sublist)
  from it plan_section_items [OF pa]
  have M: "planBody L \<noteq> []" and i: "it \<in> set (planItemsOfLines 1 (splitLines (tl (planBody L))))"
    by (auto split: if_splits)
  from planItemsOfLines_items [OF i] obtain l where v: "validText (itemText it)"
    and l: "l \<in> set (splitLines (tl (planBody L)))" "sublist (itemText it) l" by auto
  show "validText (itemText it)" by (rule v)
  have "sublist (itemText it) (planBody L)" by (rule body_sublist [OF M l])
  moreover have "sublist (planBody L) ((preamble L @ taskClaim @ taskBody L @ gap1 L @ mechanics
        @ mechBody L @ gap2 L @ planHeading) @ planBody L @ gap3 L)"
    by (rule sublist_appendI)
  ultimately show "\<not> sublist implementation (itemText it)"
    using ia by (meson sublist_order.order.trans)
qed

lemma wellFormed_mech:
  assumes wf: "wellFormed L" and i: "i \<in> set (invariantsOfContent (render L))"
  shows "description i \<noteq> [] \<and> \<not> list_ex isLineTerminator (description i)
           \<longrightarrow> validText (description i)"
    "\<not> sublist planHeading (description i)" "\<not> sublist implementation (description i)"
proof -
  from wf have ma: "sectionAt (render L) mechanics (preamble L @ taskClaim @ taskBody L @ gap1 L) []
       (mechBody L)
       (gap2 L @ planHeading @ planBody L @ gap3 L @ implementation @ implBody L @ trailer L)"
    by (simp add: wellFormed_def mechAt_def)
  from wf have pa: "\<not> sublist planHeading
       ((preamble L @ taskClaim @ taskBody L @ gap1 L @ mechanics) @ mechBody L @ gap2 L)"
    by (simp add: wellFormed_def planAt_def sectionAt_def includesStr_sublist)
  from wf have ia: "\<not> sublist implementation
       ((preamble L @ taskClaim @ taskBody L @ gap1 L @ mechanics) @ mechBody L
        @ (gap2 L @ planHeading @ planBody L @ gap3 L))"
    by (simp add: wellFormed_def implAt_def sectionAt_def includesStr_sublist)
  from i mech_section_invariants [OF ma]
  have M: "mechBody L \<noteq> []" and i': "i \<in> set (invariantsOfLines 1 (splitLines (tl (mechBody L))))"
    by (auto split: if_splits)
  from invariantsOfLines_items [OF i'] obtain l where
    e: "description i \<noteq> [] \<longrightarrow> \<not> isWhiteSpace (hd (description i)) \<and> \<not> isWhiteSpace (last (description i))"
    and l: "l \<in> set (splitLines (tl (mechBody L)))" "sublist (description i) l" by auto
  from e show "description i \<noteq> [] \<and> \<not> list_ex isLineTerminator (description i)
           \<longrightarrow> validText (description i)"
    by (simp add: validText_def)
  have s: "sublist (description i) (mechBody L)" by (rule body_sublist [OF M l])
  have "sublist (mechBody L) ((preamble L @ taskClaim @ taskBody L @ gap1 L @ mechanics)
          @ mechBody L @ gap2 L)"
    by (rule sublist_appendI)
  with s pa show "\<not> sublist planHeading (description i)"
    by (meson sublist_order.order.trans)
  have "sublist (mechBody L) ((preamble L @ taskClaim @ taskBody L @ gap1 L @ mechanics) @ mechBody L
        @ (gap2 L @ planHeading @ planBody L @ gap3 L))"
    by (rule sublist_appendI)
  with s ia show "\<not> sublist implementation (description i)"
    by (meson sublist_order.order.trans)
qed

lemma plan_lines:
  assumes "\<forall>it\<in>set items. validText (itemText it)"
  shows "\<forall>l\<in>set (map planLine items).
           CHR 0x0A \<notin> set l \<and> l \<noteq> [] \<and> hd l = CHR ''-'' \<and> \<not> isWhiteSpace (last l)"
  using assms planLine_facts(3,4,5,6) by auto

lemma plan_list_written:
  assumes wf: "wellFormed L" and ne: "items \<noteq> []"
    and v: "\<forall>it\<in>set items. validText (itemText it)"
    and ni: "\<forall>it\<in>set items. \<not> sublist implementation (itemText it)"
  shows "replacedContent (render L) planHeading (joinWith ''\<newline>'' (map planLine items))
           = render (L\<lparr>planBody := ''\<newline>'' @ joinWith ''\<newline>'' (map planLine items) @ ''\<newline>''\<rparr>)"
    and "wellFormed (L\<lparr>planBody := ''\<newline>'' @ joinWith ''\<newline>'' (map planLine items) @ ''\<newline>''\<rparr>)"
proof -
  have ne': "map planLine items \<noteq> []" using ne by simp
  note b = list_body [OF ne' plan_lines [OF v]]
  have "\<not> sublist implementation l" if "l \<in> set (map planLine items)" for l
  proof -
    from that obtain it where it: "it \<in> set items" "l = planLine it" by auto
    have "sublist implementation ((''- ['' @ (if itemStatus it = Done then ''x'' else '' '') @ ''] '')
             @ itemText it) \<longleftrightarrow> sublist implementation (itemText it)"
      by (rule sublist_skip_prefix) (simp_all add: implementation_def)
    with ni it show ?thesis by (simp add: planLine_def)
  qed
  then have f: "\<not> sublist implementation (joinWith ''\<newline>'' (map planLine items))"
    unfolding sublist_joinWith [OF heading_shape(2,1)] by blast
  show "replacedContent (render L) planHeading (joinWith ''\<newline>'' (map planLine items))
           = render (L\<lparr>planBody := ''\<newline>'' @ joinWith ''\<newline>'' (map planLine items) @ ''\<newline>''\<rparr>)"
    by (rule plan_written(1) [OF wf b(2) f b(1)])
  show "wellFormed (L\<lparr>planBody := ''\<newline>'' @ joinWith ''\<newline>'' (map planLine items) @ ''\<newline>''\<rparr>)"
    by (rule plan_written(2) [OF wf b(2) f b(1)])
qed

lemma plan_list_read:
  assumes s: "sectionSlice c planHeading
                = Some (planHeading @ ''\<newline>'' @ joinWith ''\<newline>'' (map planLine items) @ ''\<newline>'')"
    and ne: "items \<noteq> []" and v: "\<forall>it\<in>set items. validText (itemText it)"
  shows "planView (planItemsOfContent c) = planView items"
proof -
  have ne': "map planLine items \<noteq> []" using ne by simp
  note b = list_body [OF ne' plan_lines [OF v]]
  have "planItemsOfContent c
          = planItemsOfLines 1 (splitLines (joinWith ''\<newline>'' (map planLine items) @ ''\<newline>''))"
    using plan_slice_items [OF s] by simp
  also have "\<dots> = planItemsOfLines 1 (map planLine items @ [[]])" by (simp only: b(3))
  finally show ?thesis
    using planItemsOfLines_written [of items 1] v by (simp add: list_all_iff)
qed

lemma invariant_lines:
  assumes "\<forall>i\<in>set invs. validText (description i)"
  shows "\<forall>l\<in>set (map invariantLine invs).
           CHR 0x0A \<notin> set l \<and> l \<noteq> [] \<and> hd l = CHR ''-'' \<and> \<not> isWhiteSpace (last l)"
  using assms invariantLine_facts(3,4,5,6) by auto

lemma invariant_list_written:
  assumes wf: "wellFormed L" and ne: "invs \<noteq> []"
    and v: "\<forall>i\<in>set invs. validText (description i)"
    and np: "\<forall>i\<in>set invs. \<not> sublist planHeading (description i)"
    and ni: "\<forall>i\<in>set invs. \<not> sublist implementation (description i)"
  shows "replacedContent (render L) mechanics (joinWith ''\<newline>'' (map invariantLine invs))
           = render (L\<lparr>mechBody := ''\<newline>'' @ joinWith ''\<newline>'' (map invariantLine invs) @ ''\<newline>''\<rparr>)"
    and "wellFormed (L\<lparr>mechBody := ''\<newline>'' @ joinWith ''\<newline>'' (map invariantLine invs) @ ''\<newline>''\<rparr>)"
proof -
  have ne': "map invariantLine invs \<noteq> []" using ne by simp
  note b = list_body [OF ne' invariant_lines [OF v]]
  have l: "\<not> sublist h l"
    if "l \<in> set (map invariantLine invs)" "h \<noteq> []"
      "\<And>st. hd h \<notin> set (''- ['' @ statusTag st @ ''] '')"
      "\<forall>i\<in>set invs. \<not> sublist h (description i)" for l h
  proof -
    from that(1) obtain i where i: "i \<in> set invs" "l = invariantLine i" by auto
    have "sublist h ((''- ['' @ statusTag (invStatus i) @ ''] '') @ description i)
            \<longleftrightarrow> sublist h (description i)"
      by (rule sublist_skip_prefix [OF that(2,3)])
    with that(4) i show ?thesis by (simp add: invariantLine_def)
  qed
  have fp: "\<not> sublist planHeading (joinWith ''\<newline>'' (map invariantLine invs))"
    unfolding sublist_joinWith [OF heading_shape(6,5)]
    using l [OF _ heading_shape(5) heading_not_in_tag(2) np] by blast
  have fi: "\<not> sublist implementation (joinWith ''\<newline>'' (map invariantLine invs))"
    unfolding sublist_joinWith [OF heading_shape(2,1)]
    using l [OF _ heading_shape(1) heading_not_in_tag(1) ni] by blast
  show "replacedContent (render L) mechanics (joinWith ''\<newline>'' (map invariantLine invs))
           = render (L\<lparr>mechBody := ''\<newline>'' @ joinWith ''\<newline>'' (map invariantLine invs) @ ''\<newline>''\<rparr>)"
    by (rule mech_written(1) [OF wf b(2) fp fi b(1)])
  show "wellFormed (L\<lparr>mechBody := ''\<newline>'' @ joinWith ''\<newline>'' (map invariantLine invs) @ ''\<newline>''\<rparr>)"
    by (rule mech_written(2) [OF wf b(2) fp fi b(1)])
qed

lemma invariant_list_read:
  assumes s: "sectionSlice c mechanics
                = Some (mechanics @ ''\<newline>'' @ joinWith ''\<newline>'' (map invariantLine invs) @ ''\<newline>'')"
    and ne: "invs \<noteq> []" and v: "\<forall>i\<in>set invs. validText (description i)"
  shows "invariantView (invariantsOfContent c) = invariantView invs"
proof -
  have ne': "map invariantLine invs \<noteq> []" using ne by simp
  note b = list_body [OF ne' invariant_lines [OF v]]
  have "invariantsOfContent c
          = invariantsOfLines 1 (splitLines (joinWith ''\<newline>'' (map invariantLine invs) @ ''\<newline>''))"
    using mech_slice_invariants [OF s] by simp
  also have "\<dots> = invariantsOfLines 1 (map invariantLine invs @ [[]])" by (simp only: b(3))
  finally show ?thesis
    using invariantsOfLines_written [of invs 1] v by (simp add: list_all_iff)
qed

lemma tick_world:
  "noFaults (w\<lparr>tick := t\<rparr>) = noFaults w"
  by (simp add: noFaults_def)

lemma written_file: "files (written w p x) p = Some x"
  by (simp add: written_def)

lemma phase_entry_clean:
  assumes "CHR ''#'' \<notin> set now"
  shows "CHR ''#'' \<notin> set (''- [Loop '' @ formatPhase Implementer @ ''] '' @ now
            @ ('' '' @ phaseDash @ '' '' @ ''Implementer acted on plan''))"
  using assms by (simp add: formatPhase_def phaseDash_def)

lemma recordImplementationUpdate_run:
  assumes p: "specPath orc = Some p" and c: "files w p = Some (render L)" and wf: "wellFormed L"
    and nf: "noFaults w" and clk: "CHR ''#'' \<notin> set (clock w)"
  shows "\<exists>L3. files (snd (recordImplementationUpdate kind (Some s) orc w)) p
                 = Some (appendedContent (render L3) implementation
                     (''- [A3 Implementer:'' @ kind @ ''] @ '' @ clock w @ '': ''
                      @ (if s \<noteq> [] then s else ''(no details provided)'')))
               \<and> mechAt L3 \<and> planAt L3 \<and> implAt L3
               \<and> mechBody L3 = mechBody L \<and> planBody L3 = planBody L \<and> trailer L3 = trailer L"
proof -
  define e0 where "e0 = ''- [Loop '' @ formatPhase Implementer @ ''] '' @ clock w
            @ ('' '' @ phaseDash @ '' '' @ ''Implementer acted on plan'')"
  define NB where "NB = (if trimEnd (tl (taskBody L)) \<noteq> []
                         then trimEnd (tl (taskBody L)) @ ''\<newline>'' @ e0 else e0)"
  define L3 where "L3 = L\<lparr>taskBody := ''\<newline>'' @ NB @ ''\<newline>''\<rparr>"
  define orc2 where "orc2 = orc\<lparr>currentPhase := Some Implementer\<rparr>"
  define w6 where "w6 = written w p (render L3)"
  have p2: "specPath orc2 = Some p" using p by (simp add: orc2_def)
  note h = no_hash_no_heading [OF phase_entry_clean [OF clk], folded e0_def]
  note ta = task_appended [OF wf h, folded NB_def, folded L3_def]
  have "appendToSection taskClaim e0 orc2 w = (orc2, written w p (appendedContent (render L) taskClaim e0))"
    by (rule appendToSection_ok [OF p2 c nf])
  then have a: "appendToSection taskClaim e0 orc2 w = (orc2, w6)"
    by (simp add: ta(1) w6_def)
  have sp: "setPhase Implementer (Some ''Implementer acted on plan'') orc w = (orc2, w6)"
    using a by (simp add: setPhase_def ensureInitialized_known [OF p] Let_def e0_def orc2_def)
  have c6: "files w6 p = Some (render L3)" by (simp add: w6_def written_file)
  have nf6: "noFaults w6" using nf by (simp add: w6_def written_simps)
  have ck6: "clock w6 = clock w" by (simp add: w6_def written_simps)
  have "recordImplementationUpdate kind (Some s) orc w
          = appendToSection implementation
              (''- [A3 Implementer:'' @ kind @ ''] @ '' @ clock w @ '': ''
                      @ (if s \<noteq> [] then s else ''(no details provided)'')) orc2 w6"
    by (simp add: recordImplementationUpdate_def ensureInitialized_known [OF p] sp Let_def ck6)
  also have "\<dots> = (orc2, written w6 p (appendedContent (render L3) implementation
              (''- [A3 Implementer:'' @ kind @ ''] @ '' @ clock w @ '': ''
                      @ (if s \<noteq> [] then s else ''(no details provided)''))))"
    by (rule appendToSection_ok [OF p2 c6 nf6])
  finally have "files (snd (recordImplementationUpdate kind (Some s) orc w)) p
                 = Some (appendedContent (render L3) implementation
                     (''- [A3 Implementer:'' @ kind @ ''] @ '' @ clock w @ '': ''
                      @ (if s \<noteq> [] then s else ''(no details provided)'')))"
    by (simp add: written_file)
  moreover have "mechBody L3 = mechBody L" "planBody L3 = planBody L" "trailer L3 = trailer L"
    by (simp_all add: L3_def)
  ultimately show ?thesis using ta(2,3,4) by blast
qed

lemma markPlanStepComplete_run:
  assumes p: "specPath orc = Some p" and c: "files w p = Some (render L)" and wf: "wellFormed L"
    and nf: "noFaults w" and clk: "CHR ''#'' \<notin> set (clock w)"
    and rr: "rereadable (invariantsOfContent (render L))"
  shows "planView (planItemsOfContent (the (files (snd (markPlanStepComplete stepId stepNote orc w)) p)))
           = (if planItemsOfContent (render L) = [] then [(''Pending plan items'', Todo)]
              else map (\<lambda>it. (itemText it, if itemId it = stepId then Done else itemStatus it))
                     (planItemsOfContent (render L)))"
    and "invariantView (invariantsOfContent (the (files (snd (markPlanStepComplete stepId stepNote orc w)) p)))
           = (case findIndex (\<lambda>i. invStatus i = Unknown) (invariantsOfContent (render L)) of
                None \<Rightarrow> invariantView (invariantsOfContent (render L))
              | Some k \<Rightarrow> (invariantView (invariantsOfContent (render L)))
                            [k := (description (invariantsOfContent (render L) ! k), Satisfied)])"
    and "suffix (completionEntry stepId stepNote (clock w) @ ''\<newline>\<newline>'' @ trimStart (trailer L))
           (the (files (snd (markPlanStepComplete stepId stepNote orc w)) p))"
proof -
  define plan0 where "plan0 = planItemsOfContent (render L)"
  define invs0 where "invs0 = invariantsOfContent (render L)"
  define updated where
    "updated = map (\<lambda>item. if itemId item = stepId then item\<lparr>itemStatus := Done\<rparr> else item) plan0"
  define items4 where
    "items4 = (if updated = []
               then [\<lparr>itemId = [], itemText = ''Pending plan items'', itemStatus = Todo\<rparr>]
               else updated)"
  define body4 where "body4 = joinWith ''\<newline>'' (map planLine items4)"
  define L1 where "L1 = L\<lparr>planBody := ''\<newline>'' @ body4 @ ''\<newline>''\<rparr>"
  define w1 where "w1 = w\<lparr>tick := Suc (tick w)\<rparr>"
  define w2 where "w2 = written w1 p (render L1)"
  define w3 where "w3 = w2\<lparr>tick := Suc (tick w2)\<rparr>"
  define summary where
    "summary = (case stepNote of
                  None \<Rightarrow> ''Completed plan step '' @ stepId
                | Some n \<Rightarrow> (if n \<noteq> [] then stepId @ '': '' @ n else ''Completed plan step '' @ stepId))"
  have sn: "summary \<noteq> []" by (simp add: summary_def split: option.splits)
  have f0: "\<not> faults w (tick w)" using nf by (simp add: noFaults_def)
  have r1: "readPlanItems orc w = (plan0, orc, w1)"
    unfolding plan0_def w1_def by (rule reader_ok(2) [OF p c f0])
  have c1: "files w1 p = Some (render L)" "noFaults w1" "clock w1 = clock w"
    using c nf by (simp_all add: w1_def tick_world)
  have i4: "items4 \<noteq> []" by (simp add: items4_def)
  have tx: "itemText it = ''Pending plan items'' \<or> (\<exists>it0\<in>set plan0. itemText it = itemText it0)"
    if "it \<in> set items4" for it
    using that by (auto simp: items4_def updated_def split: if_splits)
  have ph: "validText ''Pending plan items''" "\<not> includesStr ''Pending plan items'' implementation"
    by code_simp+
  have v4: "\<forall>it\<in>set items4. validText (itemText it)"
    using tx wellFormed_plan(1) [OF wf] ph(1) unfolding plan0_def by metis
  have n4: "\<forall>it\<in>set items4. \<not> sublist implementation (itemText it)"
    using tx wellFormed_plan(2) [OF wf] ph(2) unfolding plan0_def includesStr_sublist by metis
  note pw = plan_list_written [OF wf i4 v4 n4, folded body4_def, folded L1_def]
  have wb: "writePlanItemsFromList updated orc w1 = replaceSectionBody planHeading body4 orc w1"
    by (simp add: writePlanItemsFromList_def body4_def items4_def planLine_def)
  have "replaceSectionBody planHeading body4 orc w1
          = (orc, written w1 p (replacedContent (render L) planHeading body4))"
    by (rule replaceSectionBody_ok [OF p c1(1,2)])
  with wb pw(1) have s1: "writePlanItemsFromList updated orc w1 = (orc, w2)"
    by (simp add: w2_def)
  have c2: "files w2 p = Some (render L1)" "noFaults w2" "clock w2 = clock w"
    using c1 by (simp_all add: w2_def written_file written_simps)
  have wf1: "wellFormed L1" by (rule pw(2))
  have mb: "mechBody L1 = mechBody L" "trailer L1 = trailer L" by (simp_all add: L1_def)
  have ma0: "sectionAt (render L) mechanics (preamble L @ taskClaim @ taskBody L @ gap1 L) []
       (mechBody L)
       (gap2 L @ planHeading @ planBody L @ gap3 L @ implementation @ implBody L @ trailer L)"
    using wf by (simp add: wellFormed_def mechAt_def)
  have ma1: "sectionAt (render L1) mechanics (preamble L1 @ taskClaim @ taskBody L1 @ gap1 L1) []
       (mechBody L1)
       (gap2 L1 @ planHeading @ planBody L1 @ gap3 L1 @ implementation @ implBody L1 @ trailer L1)"
    using wf1 by (simp add: wellFormed_def mechAt_def)
  have i1: "invariantsOfContent (render L1) = invs0"
    unfolding invs0_def mech_section_invariants [OF ma0] mech_section_invariants [OF ma1] mb ..
  have f2: "\<not> faults w2 (tick w2)" using c2(2) by (simp add: noFaults_def)
  have r2: "readInvariants orc w2 = (invs0, orc, w3)"
    unfolding i1 [symmetric] w3_def by (rule reader_ok(1) [OF p c2(1) f2])
  have c3: "files w3 p = Some (render L1)" "noFaults w3" "clock w3 = clock w"
    using c2 by (simp_all add: w3_def tick_world)
  have view4: "planView items4
      = (if plan0 = [] then [(''Pending plan items'', Todo)]
         else map (\<lambda>it. (itemText it, if itemId it = stepId then Done else itemStatus it)) plan0)"
    by (simp add: items4_def updated_def planView_def comp_def if_distrib [of itemText]
        if_distrib [of itemStatus] cong: if_cong)
  have step: "\<exists>w5 L2. (if invs0 \<noteq> []
                 then (case findIndex (\<lambda>invt. invStatus invt = Unknown) invs0 of
                         None \<Rightarrow> (orc, w3)
                       | Some k \<Rightarrow>
                           writeInvariants (invs0[k := (invs0 ! k)\<lparr>invStatus := Satisfied\<rparr>]) orc w3)
                 else (orc, w3)) = (orc, w5)
      \<and> files w5 p = Some (render L2) \<and> noFaults w5 \<and> clock w5 = clock w \<and> wellFormed L2
      \<and> planBody L2 = planBody L1 \<and> trailer L2 = trailer L
      \<and> (\<forall>c'. sectionSlice c' mechanics = Some (mechanics @ mechBody L2) \<longrightarrow>
            invariantView (invariantsOfContent c')
              = (case findIndex (\<lambda>i. invStatus i = Unknown) invs0 of
                   None \<Rightarrow> invariantView invs0
                 | Some k \<Rightarrow> (invariantView invs0)[k := (description (invs0 ! k), Satisfied)]))"
  proof (cases "findIndex (\<lambda>invt. invStatus invt = Unknown) invs0")
    case None
    have M: "mechBody L = [] \<or> hd (mechBody L) = CHR 0x0A" using ma0 by (simp add: sectionAt_def)
    have "invariantsOfContent c' = invs0"
      if "sectionSlice c' mechanics = Some (mechanics @ mechBody L1)" for c'
      unfolding invs0_def mech_section_invariants [OF ma0]
      using mech_slice_invariants [OF that [unfolded mb] M] .
    with None c3 wf1 mb show ?thesis
      by (intro exI [of _ w3] exI [of _ L1]) simp
  next
    case (Some k)
    note fi = findIndex_first [OF Some]
    define invs' where "invs' = invs0[k := (invs0 ! k)\<lparr>invStatus := Satisfied\<rparr>]"
    define body2 where "body2 = joinWith ''\<newline>'' (map invariantLine invs')"
    define L2 where "L2 = L1\<lparr>mechBody := ''\<newline>'' @ body2 @ ''\<newline>''\<rparr>"
    have ne0: "invs0 \<noteq> []" using fi(1) by auto
    have ne': "invs' \<noteq> []" using ne0 by (simp add: invs'_def)
    have v0: "\<forall>i\<in>set invs0. validText (description i)"
      using rr wellFormed_mech(1) [OF wf] unfolding invs0_def rereadable_def list_all_iff by blast
    then have v': "\<forall>i\<in>set invs'. validText (description i)"
      using flip_view(2) [OF fi(1)] unfolding invs'_def list_all_iff by blast
    have d': "\<forall>i\<in>set invs'. \<exists>j\<in>set invs0. description i = description j"
      unfolding invs'_def by (rule flip_view(3) [OF fi(1)])
    have np: "\<forall>i\<in>set invs'. \<not> sublist planHeading (description i)"
      using d' wellFormed_mech(2) [OF wf] unfolding invs0_def by metis
    have ni: "\<forall>i\<in>set invs'. \<not> sublist implementation (description i)"
      using d' wellFormed_mech(3) [OF wf] unfolding invs0_def by metis
    note mw = invariant_list_written [OF wf1 ne' v' np ni, folded body2_def, folded L2_def]
    have "writeInvariants invs' orc w3 = replaceSectionBody mechanics body2 orc w3"
      using ne' by (simp add: writeInvariants_def body2_def)
    also have "\<dots> = (orc, written w3 p (replacedContent (render L1) mechanics body2))"
      by (rule replaceSectionBody_ok [OF p c3(1,2)])
    finally have wi: "writeInvariants invs' orc w3 = (orc, written w3 p (render L2))"
      by (simp add: mw(1))
    have "invariantView (invariantsOfContent c')
            = (invariantView invs0)[k := (description (invs0 ! k), Satisfied)]"
      if "sectionSlice c' mechanics = Some (mechanics @ mechBody L2)" for c'
    proof -
      from that have "sectionSlice c' mechanics
          = Some (mechanics @ ''\<newline>'' @ joinWith ''\<newline>'' (map invariantLine invs') @ ''\<newline>'')"
        by (simp add: L2_def body2_def)
      from invariant_list_read [OF this ne' v'] flip_view(1) [OF fi(1)]
      show ?thesis by (simp add: invs'_def)
    qed
    moreover have "files (written w3 p (render L2)) p = Some (render L2)"
      "noFaults (written w3 p (render L2))" "clock (written w3 p (render L2)) = clock w"
      using c3 by (simp_all add: written_file written_simps)
    moreover have "planBody L2 = planBody L1" "trailer L2 = trailer L"
      by (simp_all add: L2_def L1_def)
    ultimately show ?thesis
      using Some ne0 wi mw(2)
      by (intro exI [of _ "written w3 p (render L2)"] exI [of _ L2]) (simp add: invs'_def)
  qed
  then obtain w5 L2 where
    s5: "(if invs0 \<noteq> []
                 then (case findIndex (\<lambda>invt. invStatus invt = Unknown) invs0 of
                         None \<Rightarrow> (orc, w3)
                       | Some k \<Rightarrow>
                           writeInvariants (invs0[k := (invs0 ! k)\<lparr>invStatus := Satisfied\<rparr>]) orc w3)
                 else (orc, w3)) = (orc, w5)"
    and c5: "files w5 p = Some (render L2)" "noFaults w5" "clock w5 = clock w"
    and wf2: "wellFormed L2" and b2: "planBody L2 = planBody L1" "trailer L2 = trailer L"
    and iv: "\<And>c'. sectionSlice c' mechanics = Some (mechanics @ mechBody L2) \<Longrightarrow>
            invariantView (invariantsOfContent c')
              = (case findIndex (\<lambda>i. invStatus i = Unknown) invs0 of
                   None \<Rightarrow> invariantView invs0
                 | Some k \<Rightarrow> (invariantView invs0)[k := (description (invs0 ! k), Satisfied)])"
    by blast
  have clk5: "CHR ''#'' \<notin> set (clock w5)" using clk c5(3) by simp
  from recordImplementationUpdate_run [OF p c5(1) wf2 c5(2) clk5, of "''plan_step''" summary]
  obtain L3 where
    fin: "files (snd (recordImplementationUpdate ''plan_step'' (Some summary) orc w5)) p
            = Some (appendedContent (render L3) implementation
                (''- [A3 Implementer:'' @ ''plan_step'' @ ''] @ '' @ clock w5 @ '': ''
                      @ (if summary \<noteq> [] then summary else ''(no details provided)'')))"
    and at3: "mechAt L3" "planAt L3" "implAt L3"
    and b3: "mechBody L3 = mechBody L2" "planBody L3 = planBody L2" "trailer L3 = trailer L2"
    by blast
  have en: "''- [A3 Implementer:'' @ ''plan_step'' @ ''] @ '' @ clock w5 @ '': ''
              @ (if summary \<noteq> [] then summary else ''(no details provided)'')
            = completionEntry stepId stepNote (clock w)"
    using sn by (simp add: completionEntry_def summary_def c5(3))
  have m: "markPlanStepComplete stepId stepNote orc w
             = recordImplementationUpdate ''plan_step'' (Some summary) orc w5"
    unfolding markPlanStepComplete_def ensureInitialized_known [OF p] prod.case r1 Let_def
      updated_def [symmetric] s1 r2 s5 summary_def [symmetric] ..
  have final: "the (files (snd (markPlanStepComplete stepId stepNote orc w)) p)
                 = appendedContent (render L3) implementation (completionEntry stepId stepNote (clock w))"
    unfolding m fin en by simp
  note ia = impl_appended [OF at3, of "completionEntry stepId stepNote (clock w)"]
  have ps: "sectionSlice (the (files (snd (markPlanStepComplete stepId stepNote orc w)) p)) planHeading
              = Some (planHeading @ ''\<newline>'' @ joinWith ''\<newline>'' (map planLine items4) @ ''\<newline>'')"
    unfolding final ia(2) b3 b2 by (simp add: L1_def body4_def)
  show "planView (planItemsOfContent (the (files (snd (markPlanStepComplete stepId stepNote orc w)) p)))
           = (if planItemsOfContent (render L) = [] then [(''Pending plan items'', Todo)]
              else map (\<lambda>it. (itemText it, if itemId it = stepId then Done else itemStatus it))
                     (planItemsOfContent (render L)))"
    unfolding plan_list_read [OF ps i4 v4] view4 plan0_def ..
  have ms: "sectionSlice (the (files (snd (markPlanStepComplete stepId stepNote orc w)) p)) mechanics
              = Some (mechanics @ mechBody L2)"
    unfolding final ia(1) b3 ..
  show "invariantView (invariantsOfContent (the (files (snd (markPlanStepComplete stepId stepNote orc w)) p)))
           = (case findIndex (\<lambda>i. invStatus i = Unknown) (invariantsOfContent (render L)) of
                None \<Rightarrow> invariantView (invariantsOfContent (render L))
              | Some k \<Rightarrow> (invariantView (invariantsOfContent (render L)))
                            [k := (description (invariantsOfContent (render L) ! k), Satisfied)])"
    using iv [OF ms] unfolding invs0_def .
  show "suffix (completionEntry stepId stepNote (clock w) @ ''\<newline>\<newline>'' @ trimStart (trailer L))
           (the (files (snd (markPlanStepComplete stepId stepNote orc w)) p))"
    unfolding final using ia(3) by (simp add: b3 b2)
qed

subsection \<open>Evaluator and gate\<close>

lemma find_hd_filter: "find P xs = (case filter P xs of [] \<Rightarrow> None | x # _ \<Rightarrow> Some x)"
  by (induction xs) auto

lemma ensureInitialized_phase: "currentPhase (fst (snd (ensureInitialized orc w))) = currentPhase orc"
  by (simp add: ensureInitialized_def split: option.splits prod.splits)

lemma resolveSpecPath_phase: "currentPhase (fst (snd (resolveSpecPath orc w))) = currentPhase orc"
  by (simp add: resolveSpecPath_def ensureInitialized_phase split: option.splits)

lemma readInvariants_phase: "currentPhase (fst (snd (readInvariants orc w))) = currentPhase orc"
  using resolveSpecPath_phase [of orc w]
  by (auto simp: readInvariants_def split: option.splits prod.splits sum.splits)

lemma readPlanItems_phase: "currentPhase (fst (snd (readPlanItems orc w))) = currentPhase orc"
  using resolveSpecPath_phase [of orc w]
  by (auto simp: readPlanItems_def split: option.splits prod.splits sum.splits)

lemma hasMappingLayer_phase: "currentPhase (fst (snd (hasMappingLayer orc w))) = currentPhase orc"
  using resolveSpecPath_phase [of orc w]
  by (auto simp: hasMappingLayer_def split: option.splits prod.splits sum.splits)

text \<open>The evaluator's result, field by field.\<close>


lemma getDeterminacyState_shape:
  "\<exists>invs items mappingReady orc' w'.
     getDeterminacyState orc w =
       (\<lparr>determinacy = max 0 (min 1 (rat_of_nat (length (filter (\<lambda>i. invStatus i = Satisfied) invs))
                                   / rat_of_nat (if length invs = 0 then 1 else length invs))),
         invariants = invs, plan = items,
         readyForPlanning = (mappingReady \<and> length invs > 0),
         readyForImplementation =
           (list_ex (\<lambda>item. itemStatus item = Todo) items
            \<and> (max 0 (min 1 (rat_of_nat (length (filter (\<lambda>i. invStatus i = Satisfied) invs))
                                   / rat_of_nat (if length invs = 0 then 1 else length invs))) \<ge> 1 / 2
               \<or> \<not> list_ex (\<lambda>i. invStatus i \<noteq> Unknown) invs))\<rparr>, orc', w')
     \<and> currentPhase orc' = currentPhase orc"
  unfolding getDeterminacyState_def Let_def
  using ensureInitialized_phase readInvariants_phase readPlanItems_phase hasMappingLayer_phase
  apply (simp split: prod.splits)
  by (metis fst_conv snd_conv)


lemma determinacy_eq:
  "determinacy (fst (getDeterminacyState orc w)) =
     max 0 (min 1 (rat_of_nat (length (filter (\<lambda>i. invStatus i = Satisfied)
                                           (invariants (fst (getDeterminacyState orc w)))))
                   / rat_of_nat (if length (invariants (fst (getDeterminacyState orc w))) = 0 then 1
                                 else length (invariants (fst (getDeterminacyState orc w))))))"
  using getDeterminacyState_shape [of orc w] by (elim exE conjE) (simp only: fst_conv SasDeterminacyState.simps)

lemma readyForImplementation_eq:
  "readyForImplementation (fst (getDeterminacyState orc w)) =
     (list_ex (\<lambda>item. itemStatus item = Todo) (plan (fst (getDeterminacyState orc w)))
      \<and> (determinacy (fst (getDeterminacyState orc w)) \<ge> 1 / 2
         \<or> \<not> list_ex (\<lambda>i. invStatus i \<noteq> Unknown) (invariants (fst (getDeterminacyState orc w)))))"
  using getDeterminacyState_shape [of orc w] by (elim exE conjE) (simp only: fst_conv SasDeterminacyState.simps)

lemma getDeterminacyState_phase:
  "currentPhase (fst (snd (getDeterminacyState orc w))) = currentPhase orc"
  using getDeterminacyState_shape [of orc w] by (elim exE conjE) (simp only: fst_conv snd_conv)







text \<open>
  Claim C1. \<open>validatePlannedToolExecution\<close> allows exactly when the in-memory phase is
  implementer, the evaluator reports \<open>readyForImplementation\<close>, and some todo plan item
  has a text whose lower-case form contains the lower-case tool name. When it allows, the
  decision carries the id of the first such item of the plan list, which is in document
  order, and no reason; when it denies, it carries a reason and no item id.
\<close>

theorem validatePlannedToolExecution_decision:
  "let st = fst (getDeterminacyState orc w);
       dec = fst (validatePlannedToolExecution toolName orc w);
       matches = filter (\<lambda>item. itemStatus item = Todo
                          \<and> includesStr (toLowerCase (itemText item)) (toLowerCase toolName)) (plan st)
   in (allowed dec \<longleftrightarrow>
         currentPhase orc = Some Implementer \<and> readyForImplementation st
         \<and> (\<exists>item \<in> set (plan st). itemStatus item = Todo
               \<and> includesStr (toLowerCase (itemText item)) (toLowerCase toolName)))
      \<and> (allowed dec \<longrightarrow> planItemId dec = Some (itemId (hd matches)) \<and> reason dec = None)
      \<and> (\<not> allowed dec \<longrightarrow> reason dec \<noteq> None \<and> planItemId dec = None)"
proof -
  obtain st orc1 w1 where g: "getDeterminacyState orc w = (st, orc1, w1)"
    by (cases "getDeterminacyState orc w") auto
  have ph: "currentPhase orc1 = currentPhase orc"
    using getDeterminacyState_phase [of orc w] g by simp
  define P :: "SasPlanItem \<Rightarrow> bool" where "P = (\<lambda>item. itemStatus item = Todo
                          \<and> includesStr (toLowerCase (itemText item)) (toLowerCase toolName))"
  have ex: "(\<exists>item \<in> set (plan st). P item) \<longleftrightarrow> filter P (plan st) \<noteq> []"
    by (simp add: filter_empty_conv)
  show ?thesis
    unfolding Let_def validatePlannedToolExecution_def g P_def [symmetric]
    using ex by (auto simp add: ph find_hd_filter split: list.splits)
qed

theorem validatePlannedToolExecution_decision_witness:
  "currentPhase exOrc = Some Implementer
   \<and> readyForImplementation (fst (getDeterminacyState exOrc (exWorld exDoc)))
   \<and> map itemId (filter (\<lambda>item. itemStatus item = Todo
                          \<and> includesStr (toLowerCase (itemText item)) (toLowerCase ''Lint''))
                  (plan (fst (getDeterminacyState exOrc (exWorld exDoc))))) = [''S2'']
   \<and> allowed (fst (validatePlannedToolExecution ''Lint'' exOrc (exWorld exDoc)))
   \<and> planItemId (fst (validatePlannedToolExecution ''Lint'' exOrc (exWorld exDoc))) = Some ''S2''"
proof -
  have a: "currentPhase exOrc = Some Implementer" by (simp add: exOrc_def)
  have b: "readyForImplementation (fst (getDeterminacyState exOrc (exWorld exDoc)))"
    by code_simp
  have c: "map itemId (filter (\<lambda>item. itemStatus item = Todo
                          \<and> includesStr (toLowerCase (itemText item)) (toLowerCase ''Lint''))
                  (plan (fst (getDeterminacyState exOrc (exWorld exDoc))))) = [''S2'']"
    by code_simp
  from c have d: "filter (\<lambda>item. itemStatus item = Todo
                          \<and> includesStr (toLowerCase (itemText item)) (toLowerCase ''Lint''))
                  (plan (fst (getDeterminacyState exOrc (exWorld exDoc)))) \<noteq> []" by auto
  from c have e: "itemId (hd (filter (\<lambda>item. itemStatus item = Todo
                          \<and> includesStr (toLowerCase (itemText item)) (toLowerCase ''Lint''))
                  (plan (fst (getDeterminacyState exOrc (exWorld exDoc)))))) = ''S2''"
    by (auto simp: map_eq_Cons_conv)
  from validatePlannedToolExecution_decision [where toolName = "''Lint''" and orc = exOrc and w = "exWorld exDoc"] a b d e
  have "allowed (fst (validatePlannedToolExecution ''Lint'' exOrc (exWorld exDoc)))
        \<and> planItemId (fst (validatePlannedToolExecution ''Lint'' exOrc (exWorld exDoc))) = Some ''S2''"
    unfolding Let_def by (auto simp: filter_empty_conv)
  with a b c show ?thesis by simp
qed

subsection \<open>Section isolation\<close>

text \<open>
  Claim C7, as amended. Let heading \<open>X\<close> be located in the document: it first occurs at the
  start of a line, the document does not end with that heading line (a line feed follows
  it), and its section runs to the next \<open>"\n## "\<close> or to the end. Whether or not
  the storage calls succeed, \<open>replaceSectionBody\<close> and \<open>appendToSection\<close> on \<open>X\<close> leave
  the text up to the start of the body of \<open>X\<close> byte-identical, and the text from the next
  heading on stays the end of the document. The section found for a located heading \<open>Y\<close>
  is unchanged when the section of \<open>Y\<close> ends before the heading \<open>X\<close>; when it begins
  after the section of \<open>X\<close>, it is unchanged provided \<open>Y\<close> does not occur in the text
  written (the trimmed new body, or the appended entry).
\<close>

theorem section_isolation:
  assumes p: "specPath orc = Some p" "files w p = Some c"
    and X: "sectionAt c X P tail M R"
  shows
    "let cr = the (files (snd (replaceSectionBody X newBody orc w)) p);
         ca = the (files (snd (appendToSection X entry orc w)) p);
         n = length (P @ X @ tail) + 1
     in take n cr = take n c \<and> take n ca = take n c
        \<and> suffix (trimStart R) cr \<and> suffix (trimStart R) ca
        \<and> (sectionAt c Y P' tail' M' (G @ X @ tail @ M @ R) \<and> P = P' @ Y @ tail' @ M' @ G \<longrightarrow>
             sectionSlice cr Y = sectionSlice c Y \<and> sectionSlice ca Y = sectionSlice c Y)
        \<and> (sectionAt c Y (P @ X @ tail @ M @ G) tail' M' R' \<and> R = G @ Y @ tail' @ M' @ R' \<longrightarrow>
             (\<not> includesStr (trim newBody) Y \<longrightarrow> sectionSlice cr Y = sectionSlice c Y)
             \<and> (\<not> includesStr entry Y \<longrightarrow> sectionSlice ca Y = sectionSlice c Y))"
proof -
  define NBa where "NBa = (if trimEnd (tl M) \<noteq> [] then trimEnd (tl M) @ ''\<newline>'' @ entry else entry)"
  define cr where "cr = the (files (snd (replaceSectionBody X newBody orc w)) p)"
  define ca where "ca = the (files (snd (appendToSection X entry orc w)) p)"
  define n where "n = length (P @ X @ tail) + 1"
  have c: "c = P @ X @ tail @ M @ R" using X by (simp add: sectionAt_def)
  have rc: "replacedContent c X newBody
              = P @ X @ tail @ ''\<newline>'' @ trim newBody @ ''\<newline>\<newline>'' @ trimStart R"
    by (rule replacedContent_sectionAt [OF X])
  have ac: "appendedContent c X entry = P @ X @ tail @ ''\<newline>'' @ NBa @ ''\<newline>\<newline>'' @ trimStart R"
    unfolding NBa_def by (rule appendedContent_sectionAt [OF X])
  have cr: "cr = c \<or> cr = replacedContent c X newBody"
    using replaceSectionBody_file [OF p, of X newBody] p(2) unfolding cr_def by auto
  have ca: "ca = c \<or> ca = appendedContent c X entry"
    using appendToSection_file [OF p, of X entry] p(2) unfolding ca_def by auto
  have before: "take n c = P @ X @ tail @ ''\<newline>''"
    using sectionAt_before [OF X] unfolding n_def slice_def by (simp add: add.assoc)
  have t1: "take n cr = take n c"
    using cr before unfolding rc by (auto simp: n_def)
  have t2: "take n ca = take n c"
    using ca before unfolding ac by (auto simp: n_def)
  have sR: "suffix (trimStart R) c"
    unfolding c trimStart_def
    by (metis suffix_appendI suffix_dropWhile)
  have s1: "suffix (trimStart R) cr"
    using cr sR unfolding rc by (auto simp: suffix_def)
  have s2: "suffix (trimStart R) ca"
    using ca sR unfolding ac by (auto simp: suffix_def)
  have b: "sectionSlice cr Y = sectionSlice c Y \<and> sectionSlice ca Y = sectionSlice c Y"
    if Y: "sectionAt c Y P' tail' M' (G @ X @ tail @ M @ R)" and P: "P = P' @ Y @ tail' @ M' @ G"
  proof -
    have o: "sectionSlice c Y = Some (Y @ tail' @ M')" by (rule sectionSlice_sectionAt [OF Y])
    have "sectionSlice (P @ X @ tail @ (''\<newline>'' @ trim newBody @ ''\<newline>\<newline>'' @ trimStart R)) Y
            = Some (Y @ tail' @ M')"
      by (rule frame_before [OF X Y P]) simp_all
    then have 1: "sectionSlice (replacedContent c X newBody) Y = sectionSlice c Y"
      unfolding rc o by simp
    have "sectionSlice (P @ X @ tail @ (''\<newline>'' @ NBa @ ''\<newline>\<newline>'' @ trimStart R)) Y
            = Some (Y @ tail' @ M')"
      by (rule frame_before [OF X Y P]) simp_all
    then have 2: "sectionSlice (appendedContent c X entry) Y = sectionSlice c Y"
      unfolding ac o by simp
    from 1 2 cr ca show ?thesis by auto
  qed
  have a: "(\<not> includesStr (trim newBody) Y \<longrightarrow> sectionSlice cr Y = sectionSlice c Y)
           \<and> (\<not> includesStr entry Y \<longrightarrow> sectionSlice ca Y = sectionSlice c Y)"
    if Y: "sectionAt c Y (P @ X @ tail @ M @ G) tail' M' R'" and R: "R = G @ Y @ tail' @ M' @ R'"
  proof -
    have o: "sectionSlice c Y = Some (Y @ tail' @ M')" by (rule sectionSlice_sectionAt [OF Y])
    from Y have Yn: "Y \<noteq> []" "CHR 0x0A \<notin> set Y"
      and nY: "\<not> sublist Y (P @ X @ tail @ M @ G)"
      by (simp_all add: sectionAt_def includesStr_sublist)
    have 1: "sectionSlice cr Y = sectionSlice c Y" if "\<not> includesStr (trim newBody) Y"
    proof -
      from that have "\<not> sublist Y (trim newBody)" by (simp add: includesStr_sublist)
      from sectionSlice_sectionAt [OF frame_after [OF X Y R this]]
      have "sectionSlice (replacedContent c X newBody) Y = sectionSlice c Y"
        unfolding rc o .
      with cr show ?thesis by auto
    qed
    have 2: "sectionSlice ca Y = sectionSlice c Y" if "\<not> includesStr entry Y"
    proof -
      from that have e: "\<not> sublist Y entry" by (simp add: includesStr_sublist)
      have ex: "\<not> sublist Y (trimEnd (tl M))"
      proof
        assume "sublist Y (trimEnd (tl M))"
        then have "sublist Y (tl M)" by (rule sublist_trimEnd)
        then have "sublist Y M" using sublist_tl sublist_order.order.trans by blast
        then have "sublist Y ((P @ X @ tail) @ M @ G)" by (metis sublist_append)
        with nY show False by simp
      qed
      have "\<not> sublist Y NBa"
        unfolding NBa_def using e ex sublist_sep [OF Yn(2,1), of "trimEnd (tl M)" entry] by simp
      from sectionSlice_sectionAt [OF frame_after [OF X Y R this]]
      have "sectionSlice (appendedContent c X entry) Y = sectionSlice c Y"
        unfolding ac o .
      with ca show ?thesis by auto
    qed
    from 1 2 show ?thesis by blast
  qed
  from t1 t2 s1 s2 a b show ?thesis
    unfolding Let_def cr_def [symmetric] ca_def [symmetric] n_def [symmetric] by blast
qed

text \<open>
  The claim as stated fails when the text written contains the heading of a later
  section: the readers then find that heading inside the rewritten section.
\<close>

theorem section_isolation_counterexample:
  "sectionSlice twoSections ''## A'' = Some ''## A\<newline>x''
   \<and> sectionSlice twoSections ''## B'' = Some ''## B\<newline>y\<newline>''
   \<and> files (snd (replaceSectionBody ''## A'' ''## B\<newline>z'' exOrc (exWorld twoSections))) exPath
       = Some ''## A\<newline>## B\<newline>z\<newline>\<newline>## B\<newline>y\<newline>''
   \<and> sectionSlice (the (files (snd (replaceSectionBody ''## A'' ''## B\<newline>z'' exOrc (exWorld twoSections))) exPath)) ''## B''
       = Some ''## B\<newline>z\<newline>''
   \<and> sectionSlice (the (files (snd (replaceSectionBody ''## A'' ''## B\<newline>z'' exOrc (exWorld twoSections))) exPath)) ''## B''
       \<noteq> sectionSlice twoSections ''## B''"
  by code_simp

theorem section_isolation_witness:
  "specPath exOrc = Some exPath \<and> files (exWorld twoSections) exPath = Some twoSections
   \<and> sectionAt twoSections ''## B'' ''## A\<newline>x\<newline>'' [] ''\<newline>y\<newline>'' []
   \<and> sectionAt twoSections ''## A'' [] [] ''\<newline>x'' (''\<newline>'' @ ''## B'' @ [] @ ''\<newline>y\<newline>'' @ [])
   \<and> sectionSlice (the (files (snd (replaceSectionBody ''## B'' ''z'' exOrc (exWorld twoSections))) exPath)) ''## A''
       = sectionSlice twoSections ''## A''
   \<and> sectionSlice (the (files (snd (appendToSection ''## B'' ''- e'' exOrc (exWorld twoSections))) exPath)) ''## A''
       = sectionSlice twoSections ''## A''
   \<and> sectionAt twoSections ''## B'' ([] @ ''## A'' @ [] @ ''\<newline>x'' @ ''\<newline>'') [] ''\<newline>y\<newline>'' []
   \<and> \<not> includesStr (trim ''z'') ''## B'' \<and> \<not> includesStr ''- e'' ''## B''
   \<and> sectionSlice (the (files (snd (replaceSectionBody ''## A'' ''z'' exOrc (exWorld twoSections))) exPath)) ''## B''
       = sectionSlice twoSections ''## B''
   \<and> sectionSlice (the (files (snd (appendToSection ''## A'' ''- e'' exOrc (exWorld twoSections))) exPath)) ''## B''
       = sectionSlice twoSections ''## B''"
proof -
  have B: "sectionAt twoSections ''## B'' ''## A\<newline>x\<newline>'' [] ''\<newline>y\<newline>'' []"
    by code_simp
  have A: "sectionAt twoSections ''## A'' [] [] ''\<newline>x'' (''\<newline>'' @ ''## B'' @ [] @ ''\<newline>y\<newline>'' @ [])"
    by code_simp
  have B': "sectionAt twoSections ''## B'' ([] @ ''## A'' @ [] @ ''\<newline>x'' @ ''\<newline>'') [] ''\<newline>y\<newline>'' []"
    using B by simp
  have n: "\<not> includesStr (trim ''z'') ''## B''" "\<not> includesStr ''- e'' ''## B''"
    by code_simp+
  have A0: "sectionAt twoSections ''## A'' [] [] ''\<newline>x'' ''\<newline>## B\<newline>y\<newline>''"
    using A by simp
  from section_isolation [OF exOrc_path exWorld_file B,
      where Y = "''## A''" and P' = "[]" and tail' = "[]" and M' = "''\<newline>x''" and G = "''\<newline>''"
        and newBody = "''z''" and entry = "''- e''"] A0
  have 1: "sectionSlice (the (files (snd (replaceSectionBody ''## B'' ''z'' exOrc (exWorld twoSections))) exPath)) ''## A''
             = sectionSlice twoSections ''## A''
           \<and> sectionSlice (the (files (snd (appendToSection ''## B'' ''- e'' exOrc (exWorld twoSections))) exPath)) ''## A''
             = sectionSlice twoSections ''## A''"
    unfolding Let_def by simp
  from section_isolation [OF exOrc_path exWorld_file A0,
      where Y = "''## B''" and tail' = "[]" and M' = "''\<newline>y\<newline>''" and G = "''\<newline>''" and R' = "[]"
        and newBody = "''z''" and entry = "''- e''"] B n
  have 2: "sectionSlice (the (files (snd (replaceSectionBody ''## A'' ''z'' exOrc (exWorld twoSections))) exPath)) ''## B''
             = sectionSlice twoSections ''## B''
           \<and> sectionSlice (the (files (snd (appendToSection ''## A'' ''- e'' exOrc (exWorld twoSections))) exPath)) ''## B''
             = sectionSlice twoSections ''## B''"
    unfolding Let_def by simp
  from exOrc_path exWorld_file B A B' n 1 2 show ?thesis by blast
qed

subsection \<open>Mapping-layer presence\<close>

text \<open>
  Claim C3 (the code departs from it). The slice \<open>hasMappingLayer\<close> examines starts at
  the heading, so the heading line is among the lines it tests. Whenever the Mapping-Layer
  heading is located and stands alone on its line, the section is judged meaningful,
  whatever its body holds: also when the body is nothing but placeholder lines.
\<close>

theorem mappingLayer_heading_counts:
  assumes "sectionAt c mappingLayer P [] M R"
  shows "mappingLayerMeaningful c"
proof -
  have nl: "CHR 0x0A \<notin> set mappingLayer" using assms by (simp add: sectionAt_def)
  have M: "M = [] \<or> hd M = CHR 0x0A" using assms by (simp add: sectionAt_def)
  have "sectionSlice c mappingLayer = Some (mappingLayer @ M)"
    using sectionSlice_sectionAt [OF assms] by simp
  moreover have "splitLines (mappingLayer @ M)
                   = mappingLayer # (if M = [] then [] else splitLines (tl M))"
    by (rule splitLines_region [OF nl M])
  ultimately show ?thesis
    using mappingLayer_line_meaningful by (simp add: mappingLayerMeaningful_def)
qed

theorem mappingLayer_heading_counts_witness:
  "sectionAt placeholderOnly mappingLayer [] [] ''\<newline>- Entities: _\<newline>'' []
   \<and> mappingLayerMeaningful placeholderOnly
   \<and> fst (hasMappingLayer exOrc (exWorld placeholderOnly))"
proof -
  have a: "sectionAt placeholderOnly mappingLayer [] [] ''\<newline>- Entities: _\<newline>'' []"
    by code_simp
  from mappingLayer_heading_counts [OF a] have b: "mappingLayerMeaningful placeholderOnly" .
  then have "fst (hasMappingLayer exOrc (exWorld placeholderOnly))"
    by (simp add: hasMappingLayer_def resolveSpecPath_known [OF exOrc_path] readFile_def
        storageCall_def exWorld_file)
       (simp add: exWorld_def)
  with a b show ?thesis by simp
qed

subsection \<open>Ensuring the document\<close>


lemma ensureSpecFile_cases:
  "ensureSpecFile r m task w =
     (if faults w (tick w) then (None, w\<lparr>tick := Suc (tick w)\<rparr>)
      else if fileExistsAtPath (specPathOf r m) w then (Some (specPathOf r m), w\<lparr>tick := Suc (tick w)\<rparr>)
      else if faults w (Suc (tick w)) then (None, w\<lparr>tick := Suc (Suc (tick w))\<rparr>)
      else (Some (specPathOf r m),
            w\<lparr>tick := Suc (Suc (tick w)),
              files := (files w)(specPathOf r m \<mapsto> buildInitialTemplate (clock w) m task)\<rparr>))"
  by (simp add: ensureSpecFile_def ensureContainerDirectory_def mkdir_def writeFile_def
      storageCall_def specPathOf_def fileExistsAtPath_def Let_def)




subsection \<open>One failing call\<close>

lemma readFile_fails_at:
  "faults w (tick w) \<Longrightarrow> readFile p w = (Inl StorageError, w\<lparr>tick := Suc (tick w)\<rparr>)"
  by (simp add: readFile_def storageCall_def)

lemma writer_call_fails:
  assumes "specPath orc = Some p" "faults w (tick w) \<or> faults w (Suc (tick w))"
  shows "files (snd (appendToSection h e orc w)) = files w"
    "files (snd (replaceSectionBody h b orc w)) = files w"
  using assms
  by (auto simp: appendToSection_def replaceSectionBody_def resolveSpecPath_known readFile_def
      writeFile_def storageCall_def split: option.splits)

lemma gate_plan_read_fails:
  assumes p: "specPath orc = Some p" and f: "faults w (Suc (tick w))"
  shows "\<not> allowed (fst (validatePlannedToolExecution toolName orc w))"
proof -
  obtain invs orc2 w2 where i: "readInvariants orc w = (invs, orc2, w2)" by (metis prod_cases3)
  have o2: "orc2 = orc" and t2: "tick w2 = Suc (tick w)" and f2: "faults w2 = faults w"
    using i p by (auto simp: readInvariants_def resolveSpecPath_known readFile_def storageCall_def
        split: if_splits option.splits)
  from f t2 f2 have "faults w2 (tick w2)" by simp
  then have r: "readPlanItems orc w2 = ([], orc, w2\<lparr>tick := Suc (tick w2)\<rparr>)"
    using p by (simp add: readPlanItems_def resolveSpecPath_known readFile_fails_at)
  obtain m orc4 w4 where h: "hasMappingLayer orc (w2\<lparr>tick := Suc (tick w2)\<rparr>) = (m, orc4, w4)"
    by (metis prod_cases3)
  have n: "\<not> readyForImplementation (fst (getDeterminacyState orc w))"
    by (simp add: getDeterminacyState_def ensureInitialized_known [OF p] i o2 r h Let_def)
  obtain st orc1 w1 where g: "getDeterminacyState orc w = (st, orc1, w1)" by (metis prod_cases3)
  with n have "\<not> readyForImplementation st" by simp
  then show ?thesis
    by (simp add: validatePlannedToolExecution_def g)
qed

lemma reader_read_fails:
  assumes "specPath orc = Some p" "faults w (tick w)"
  shows "fst (readInvariants orc w) = []" "fst (readPlanItems orc w) = []"
    "fst (hasMappingLayer orc w) = False" "fst (getSpecInstructions maxChars orc w) = None"
  using assms
  by (simp_all add: readInvariants_def readPlanItems_def hasMappingLayer_def getSpecInstructions_def
      resolveSpecPath_known ensureInitialized_known readFile_fails_at)

text \<open>
  What holds of the catch branches. When every storage call fails, creating the document
  yields no path, the evaluator has no invariants and no plan items and is ready for
  nothing, the gate refuses every tool and gives a reason, the prompt context is absent,
  and every recording operation leaves the files as they were. A failed read makes each
  reader return its empty default, a failed plan read closes the gate, a failed read or
  write inside a section writer leaves the files unchanged, and a failed directory call
  never alters a file.
\<close>

lemma storage_outage_defaults:
  "(storageDown w \<longrightarrow>
       fst (ensureSpecFile wsRoot md task w) = None
     \<and> untouched w (snd (ensureSpecFile wsRoot md task w))
     \<and> fst (ensureInitialized orc w) = specPath orc
     \<and> untouched w (snd (snd (ensureInitialized orc w)))
     \<and> invariants (fst (getDeterminacyState orc w)) = []
     \<and> plan (fst (getDeterminacyState orc w)) = []
     \<and> \<not> readyForPlanning (fst (getDeterminacyState orc w))
     \<and> \<not> readyForImplementation (fst (getDeterminacyState orc w))
     \<and> untouched w (snd (snd (getDeterminacyState orc w)))
     \<and> \<not> allowed (fst (validatePlannedToolExecution toolName orc w))
     \<and> reason (fst (validatePlannedToolExecution toolName orc w)) \<noteq> None
     \<and> untouched w (snd (snd (validatePlannedToolExecution toolName orc w)))
     \<and> fst (getSpecInstructions maxChars orc w) = None
     \<and> untouched w (snd (snd (getSpecInstructions maxChars orc w)))
     \<and> untouched w (snd (setPhase phase reasonText orc w))
     \<and> untouched w (snd (recordUserIntent intent attachments orc w))
     \<and> untouched w (snd (recordPlanUpdate planText orc w))
     \<and> untouched w (snd (recordImplementationUpdate kind logText orc w))
     \<and> untouched w (snd (recordOpenQuestion question orc w))
     \<and> untouched w (snd (recordSayEvent event orc w))
     \<and> untouched w (snd (markPlanStepComplete stepId stepNote orc w)))
   \<and> (specPath orc = Some p \<and> faults w (tick w) \<longrightarrow>
       fst (readInvariants orc w) = [] \<and> fst (readPlanItems orc w) = []
     \<and> fst (hasMappingLayer orc w) = False
     \<and> fst (getSpecInstructions maxChars orc w) = None)
   \<and> (specPath orc = Some p \<and> faults w (Suc (tick w)) \<longrightarrow>
       \<not> allowed (fst (validatePlannedToolExecution toolName orc w)))
   \<and> (specPath orc = Some p \<and> (faults w (tick w) \<or> faults w (Suc (tick w))) \<longrightarrow>
       files (snd (appendToSection heading entry orc w)) = files w
     \<and> files (snd (replaceSectionBody heading newBody orc w)) = files w)
   \<and> (faults w (tick w) \<or> faults w (Suc (tick w)) \<longrightarrow>
       files (snd (ensureSpecFile wsRoot md task w)) = files w)
   \<and> (faults w (tick w) \<or> (faults w (Suc (tick w)) \<and> files w (specPathOf wsRoot md) = None) \<longrightarrow>
       fst (ensureSpecFile wsRoot md task w) = None)"
proof -
  have 1: "fst (ensureSpecFile wsRoot md task w) = None
     \<and> untouched w (snd (ensureSpecFile wsRoot md task w))
     \<and> fst (ensureInitialized orc w) = specPath orc
     \<and> untouched w (snd (snd (ensureInitialized orc w)))
     \<and> invariants (fst (getDeterminacyState orc w)) = []
     \<and> plan (fst (getDeterminacyState orc w)) = []
     \<and> \<not> readyForPlanning (fst (getDeterminacyState orc w))
     \<and> \<not> readyForImplementation (fst (getDeterminacyState orc w))
     \<and> untouched w (snd (snd (getDeterminacyState orc w)))
     \<and> \<not> allowed (fst (validatePlannedToolExecution toolName orc w))
     \<and> reason (fst (validatePlannedToolExecution toolName orc w)) \<noteq> None
     \<and> untouched w (snd (snd (validatePlannedToolExecution toolName orc w)))
     \<and> fst (getSpecInstructions maxChars orc w) = None
     \<and> untouched w (snd (snd (getSpecInstructions maxChars orc w)))
     \<and> untouched w (snd (setPhase phase reasonText orc w))
     \<and> untouched w (snd (recordUserIntent intent attachments orc w))
     \<and> untouched w (snd (recordPlanUpdate planText orc w))
     \<and> untouched w (snd (recordImplementationUpdate kind logText orc w))
     \<and> untouched w (snd (recordOpenQuestion question orc w))
     \<and> untouched w (snd (recordSayEvent event orc w))
     \<and> untouched w (snd (markPlanStepComplete stepId stepNote orc w))" if d: "storageDown w"
    using ensureSpecFile_down [OF d, of wsRoot md task] ensureInitialized_down [OF d, of orc]
      getDeterminacyState_down [OF d, of orc]
      validatePlannedToolExecution_down [OF d, of toolName orc]
      getSpecInstructions_down [OF d, of maxChars orc]
      setPhase_down [OF d, of phase reasonText orc]
      recordUserIntent_down [OF d, of intent attachments orc]
      recordPlanUpdate_down [OF d, of planText orc]
      recordImplementationUpdate_down [OF d, of kind logText orc]
      recordOpenQuestion_down [OF d, of question orc]
      recordSayEvent_down [OF d, of event orc]
      markPlanStepComplete_down [OF d, of stepId stepNote orc]
    by blast
  have 2: "fst (readInvariants orc w) = [] \<and> fst (readPlanItems orc w) = []
     \<and> fst (hasMappingLayer orc w) = False
     \<and> fst (getSpecInstructions maxChars orc w) = None"
    if "specPath orc = Some p" "faults w (tick w)"
    using reader_read_fails [OF that] by simp
  have 3: "\<not> allowed (fst (validatePlannedToolExecution toolName orc w))"
    if "specPath orc = Some p" "faults w (Suc (tick w))"
    using that by (rule gate_plan_read_fails)
  have 4: "files (snd (appendToSection heading entry orc w)) = files w
     \<and> files (snd (replaceSectionBody heading newBody orc w)) = files w"
    if "specPath orc = Some p" "faults w (tick w) \<or> faults w (Suc (tick w))"
    using writer_call_fails [OF that] by simp
  have 5: "files (snd (ensureSpecFile wsRoot md task w)) = files w"
    if "faults w (tick w) \<or> faults w (Suc (tick w))"
    using that by (auto simp: ensureSpecFile_cases fileExistsAtPath_def)
  have 6: "fst (ensureSpecFile wsRoot md task w) = None"
    if "faults w (tick w) \<or> (faults w (Suc (tick w)) \<and> files w (specPathOf wsRoot md) = None)"
    using that by (auto simp: ensureSpecFile_cases fileExistsAtPath_def)
  from 1 2 3 4 5 6 show ?thesis by blast
qed

subsection \<open>Defaults that misfire\<close>

lemma gate_invariants_read_fails:
  assumes p: "specPath orc = Some p" and c: "files w p = Some c"
    and f0: "faults w (tick w)" and f1: "\<not> faults w (Suc (tick w))"
  shows "invariants (fst (getDeterminacyState orc w)) = []"
    "plan (fst (getDeterminacyState orc w)) = planItemsOfContent c"
    "readyForImplementation (fst (getDeterminacyState orc w))
       = list_ex (\<lambda>item. itemStatus item = Todo) (planItemsOfContent c)"
    "allowed (fst (validatePlannedToolExecution toolName orc w))
       \<longleftrightarrow> currentPhase orc = Some Implementer
           \<and> list_ex (\<lambda>item. itemStatus item = Todo
                          \<and> includesStr (toLowerCase (itemText item)) (toLowerCase toolName))
                 (planItemsOfContent c)"
proof -
  define w2 where "w2 = w\<lparr>tick := Suc (tick w)\<rparr>"
  define w3 where "w3 = w2\<lparr>tick := Suc (tick w2)\<rparr>"
  have i: "readInvariants orc w = ([], orc, w2)"
    using p f0 by (simp add: readInvariants_def resolveSpecPath_known readFile_fails_at w2_def)
  have "files w2 p = Some c" "\<not> faults w2 (tick w2)" using c f1 by (simp_all add: w2_def)
  then have r: "readPlanItems orc w2 = (planItemsOfContent c, orc, w3)"
    unfolding w3_def by (rule reader_ok(2) [OF p])
  obtain m orc4 w4 where h: "hasMappingLayer orc w3 = (m, orc4, w4)" by (metis prod_cases3)
  have o4: "orc4 = orc"
    using h p by (auto simp: hasMappingLayer_def resolveSpecPath_known split: prod.splits sum.splits)
  have g: "getDeterminacyState orc w =
             (\<lparr>determinacy = 0, invariants = [], plan = planItemsOfContent c,
               readyForPlanning = False,
               readyForImplementation = list_ex (\<lambda>item. itemStatus item = Todo) (planItemsOfContent c)\<rparr>,
              orc, w4)"
    by (simp add: getDeterminacyState_def ensureInitialized_known [OF p] i r h o4 Let_def)
  show "invariants (fst (getDeterminacyState orc w)) = []"
    "plan (fst (getDeterminacyState orc w)) = planItemsOfContent c"
    "readyForImplementation (fst (getDeterminacyState orc w))
       = list_ex (\<lambda>item. itemStatus item = Todo) (planItemsOfContent c)"
    by (simp_all add: g)
  show "allowed (fst (validatePlannedToolExecution toolName orc w))
       \<longleftrightarrow> currentPhase orc = Some Implementer
           \<and> list_ex (\<lambda>item. itemStatus item = Todo
                          \<and> includesStr (toLowerCase (itemText item)) (toLowerCase toolName))
                 (planItemsOfContent c)"
  proof (cases "find (\<lambda>item. itemStatus item = Todo
                          \<and> includesStr (toLowerCase (itemText item)) (toLowerCase toolName))
                 (planItemsOfContent c)")
    case None
    then have "\<not> list_ex (\<lambda>item. itemStatus item = Todo
                          \<and> includesStr (toLowerCase (itemText item)) (toLowerCase toolName))
                 (planItemsOfContent c)"
      by (simp add: find_None_iff list_ex_iff)
    with None show ?thesis by (simp add: validatePlannedToolExecution_def g Let_def)
  next
    case (Some m)
    then have "m \<in> set (planItemsOfContent c)" "itemStatus m = Todo"
      "includesStr (toLowerCase (itemText m)) (toLowerCase toolName)"
      by (auto simp: find_Some_iff)
    then have "list_ex (\<lambda>item. itemStatus item = Todo
                          \<and> includesStr (toLowerCase (itemText item)) (toLowerCase toolName))
                 (planItemsOfContent c)"
      "list_ex (\<lambda>item. itemStatus item = Todo) (planItemsOfContent c)"
      by (auto simp: list_ex_iff)
    with Some show ?thesis by (simp add: validatePlannedToolExecution_def g Let_def)
  qed
qed

lemma plan_read_fails_then_write:
  assumes p: "specPath orc = Some p" and c: "files w p = Some c"
    and f0: "faults w (tick w)" and f1: "\<not> faults w (Suc (tick w))"
    and f2: "\<not> faults w (Suc (Suc (tick w)))"
  shows "fst (readPlanItems orc w) = []"
    "files (snd (writePlanItemsFromList
        (map (\<lambda>item. if itemId item = stepId then item\<lparr>itemStatus := Done\<rparr> else item)
             (fst (readPlanItems orc w)))
        orc (snd (snd (readPlanItems orc w)))))
      = (files w)(p \<mapsto> replacedContent c planHeading ''- [ ] Pending plan items'')"
proof -
  have r: "readPlanItems orc w = ([], orc, w\<lparr>tick := Suc (tick w)\<rparr>)"
    using p f0 by (simp add: readPlanItems_def resolveSpecPath_known readFile_fails_at)
  show "fst (readPlanItems orc w) = []" by (simp add: r)
  show "files (snd (writePlanItemsFromList
        (map (\<lambda>item. if itemId item = stepId then item\<lparr>itemStatus := Done\<rparr> else item)
             (fst (readPlanItems orc w)))
        orc (snd (snd (readPlanItems orc w)))))
      = (files w)(p \<mapsto> replacedContent c planHeading ''- [ ] Pending plan items'')"
    using p c f1 f2
    by (simp add: r writePlanItemsFromList_def replaceSectionBody_def resolveSpecPath_known
        readFile_def writeFile_def storageCall_def)
qed

text \<open>
  Claim C9 (the code departs from it). No operation propagates a storage failure, and
  each reader whose read fails returns its empty default, but the operations built on the
  readers do not degrade to a denial or to an unchanged document.
  When the read of the invariants fails and the read of the plan succeeds, the evaluator
  sees no invariant, so its implementation flag is true as soon as the plan has an open
  item, and the gate allows a tool exactly when the phase is implementer and an open plan
  item names the tool: the invariants of the document, whatever their statuses, no longer
  deny. When the read of the plan fails in \<open>markPlanStepComplete\<close>, the empty default is
  written back: the Plan body of the document is replaced by the placeholder line.
\<close>

theorem failed_read_default_misfires:
  "(specPath orc = Some p \<and> files w p = Some c
      \<and> faults w (tick w) \<and> \<not> faults w (Suc (tick w)) \<longrightarrow>
        invariants (fst (getDeterminacyState orc w)) = []
      \<and> plan (fst (getDeterminacyState orc w)) = planItemsOfContent c
      \<and> readyForImplementation (fst (getDeterminacyState orc w))
           = list_ex (\<lambda>item. itemStatus item = Todo) (planItemsOfContent c)
      \<and> (allowed (fst (validatePlannedToolExecution toolName orc w))
           \<longleftrightarrow> currentPhase orc = Some Implementer
               \<and> list_ex (\<lambda>item. itemStatus item = Todo
                              \<and> includesStr (toLowerCase (itemText item)) (toLowerCase toolName))
                     (planItemsOfContent c)))
   \<and> (specPath orc = Some p \<and> files w p = Some c
      \<and> faults w (tick w) \<and> \<not> faults w (Suc (tick w)) \<and> \<not> faults w (Suc (Suc (tick w))) \<longrightarrow>
        fst (readPlanItems orc w) = []
      \<and> files (snd (writePlanItemsFromList
            (map (\<lambda>item. if itemId item = stepId then item\<lparr>itemStatus := Done\<rparr> else item)
                 (fst (readPlanItems orc w)))
            orc (snd (snd (readPlanItems orc w)))))
          = (files w)(p \<mapsto> replacedContent c planHeading ''- [ ] Pending plan items''))"
proof -
  have 1: "invariants (fst (getDeterminacyState orc w)) = []
      \<and> plan (fst (getDeterminacyState orc w)) = planItemsOfContent c
      \<and> readyForImplementation (fst (getDeterminacyState orc w))
           = list_ex (\<lambda>item. itemStatus item = Todo) (planItemsOfContent c)
      \<and> (allowed (fst (validatePlannedToolExecution toolName orc w))
           \<longleftrightarrow> currentPhase orc = Some Implementer
               \<and> list_ex (\<lambda>item. itemStatus item = Todo
                              \<and> includesStr (toLowerCase (itemText item)) (toLowerCase toolName))
                     (planItemsOfContent c))"
    if "specPath orc = Some p" "files w p = Some c" "faults w (tick w)"
      "\<not> faults w (Suc (tick w))"
    using gate_invariants_read_fails [OF that] by simp
  have 2: "fst (readPlanItems orc w) = []
      \<and> files (snd (writePlanItemsFromList
            (map (\<lambda>item. if itemId item = stepId then item\<lparr>itemStatus := Done\<rparr> else item)
                 (fst (readPlanItems orc w)))
            orc (snd (snd (readPlanItems orc w)))))
          = (files w)(p \<mapsto> replacedContent c planHeading ''- [ ] Pending plan items'')"
    if "specPath orc = Some p" "files w p = Some c" "faults w (tick w)"
      "\<not> faults w (Suc (tick w))" "\<not> faults w (Suc (Suc (tick w)))"
    using plan_read_fails_then_write [OF that] by simp
  from 1 2 show ?thesis by blast
qed

theorem failed_read_default_misfires_witness:
  "specPath exOrc = Some exPath
   \<and> files (firstCallFails violatedDoc) exPath = Some violatedDoc
   \<and> faults (firstCallFails violatedDoc) (tick (firstCallFails violatedDoc))
   \<and> \<not> faults (firstCallFails violatedDoc) (Suc (tick (firstCallFails violatedDoc)))
   \<and> \<not> faults (firstCallFails violatedDoc) (Suc (Suc (tick (firstCallFails violatedDoc))))
   \<and> map invStatus (invariantsOfContent violatedDoc) = [Violated]
   \<and> map itemText (planItemsOfContent violatedDoc) = [''run lint'']
   \<and> \<not> allowed (fst (validatePlannedToolExecution ''lint'' exOrc (exWorld violatedDoc)))
   \<and> allowed (fst (validatePlannedToolExecution ''lint'' exOrc (firstCallFails violatedDoc)))
   \<and> invariants (fst (getDeterminacyState exOrc (firstCallFails violatedDoc))) = []
   \<and> files (snd (writePlanItemsFromList
         (map (\<lambda>item. if itemId item = ''S2'' then item\<lparr>itemStatus := Done\<rparr> else item)
              (fst (readPlanItems exOrc (firstCallFails violatedDoc))))
         exOrc (snd (snd (readPlanItems exOrc (firstCallFails violatedDoc)))))) exPath
       = Some ''## 2. Mechanics & Invariants\<newline>- [violated] a\<newline>## 4. Plan State (Agent 2 Output)\<newline>- [ ] Pending plan items\<newline>\<newline>''
   \<and> map itemText (planItemsOfContent (the (files (snd
         (markPlanStepComplete ''S2'' None exOrc (firstCallFails violatedDoc))) exPath)))
       = [''Pending plan items'']"
proof -
  have p: "specPath exOrc = Some exPath" by (rule exOrc_path)
  have c: "files (firstCallFails violatedDoc) exPath = Some violatedDoc"
    by (simp add: firstCallFails_def exPath_def)
  have f: "faults (firstCallFails violatedDoc) (tick (firstCallFails violatedDoc))"
    "\<not> faults (firstCallFails violatedDoc) (Suc (tick (firstCallFails violatedDoc)))"
    "\<not> faults (firstCallFails violatedDoc) (Suc (Suc (tick (firstCallFails violatedDoc))))"
    by (simp_all add: firstCallFails_def)
  have d: "map invStatus (invariantsOfContent violatedDoc) = [Violated]"
    "map itemText (planItemsOfContent violatedDoc) = [''run lint'']"
    "\<not> allowed (fst (validatePlannedToolExecution ''lint'' exOrc (exWorld violatedDoc)))"
    by code_simp+
  have ph: "currentPhase exOrc = Some Implementer" by (simp add: exOrc_def)
  have m: "list_ex (\<lambda>item. itemStatus item = Todo
                          \<and> includesStr (toLowerCase (itemText item)) (toLowerCase ''lint''))
             (planItemsOfContent violatedDoc)"
    by code_simp
  have r: "replacedContent violatedDoc planHeading ''- [ ] Pending plan items''
      = ''## 2. Mechanics & Invariants\<newline>- [violated] a\<newline>## 4. Plan State (Agent 2 Output)\<newline>- [ ] Pending plan items\<newline>\<newline>''"
    by code_simp
  have e: "map itemText (planItemsOfContent (the (files (snd
         (markPlanStepComplete ''S2'' None exOrc (firstCallFails violatedDoc))) exPath)))
       = [''Pending plan items'']"
    by code_simp
  have t: "allowed (fst (validatePlannedToolExecution ''lint'' exOrc (firstCallFails violatedDoc)))
     \<and> invariants (fst (getDeterminacyState exOrc (firstCallFails violatedDoc))) = []
     \<and> files (snd (writePlanItemsFromList
         (map (\<lambda>item. if itemId item = ''S2'' then item\<lparr>itemStatus := Done\<rparr> else item)
              (fst (readPlanItems exOrc (firstCallFails violatedDoc))))
         exOrc (snd (snd (readPlanItems exOrc (firstCallFails violatedDoc))))))
       = (files (firstCallFails violatedDoc))
           (exPath \<mapsto> replacedContent violatedDoc planHeading ''- [ ] Pending plan items'')"
    using failed_read_default_misfires [where orc = exOrc and p = exPath
        and w = "firstCallFails violatedDoc" and c = violatedDoc and toolName = "''lint''"
        and stepId = "''S2''"] p c f ph m
    by blast
  then have u: "files (snd (writePlanItemsFromList
         (map (\<lambda>item. if itemId item = ''S2'' then item\<lparr>itemStatus := Done\<rparr> else item)
              (fst (readPlanItems exOrc (firstCallFails violatedDoc))))
         exOrc (snd (snd (readPlanItems exOrc (firstCallFails violatedDoc)))))) exPath
       = Some ''## 2. Mechanics & Invariants\<newline>- [violated] a\<newline>## 4. Plan State (Agent 2 Output)\<newline>- [ ] Pending plan items\<newline>\<newline>''"
    by (simp only: r fun_upd_same)
  from p c f d t u e show ?thesis by blast
qed

subsection \<open>The initial template\<close>

lemma ensureInitialized_fresh:
  assumes "freshRun orc w"
  shows "ensureInitialized orc w =
           (Some (specPathOf (workspaceRoot orc) (orcMetadata orc)),
            orc\<lparr>specPath := Some (specPathOf (workspaceRoot orc) (orcMetadata orc))\<rparr>,
            w\<lparr>tick := Suc (Suc (tick w)),
              files := (files w)(specPathOf (workspaceRoot orc) (orcMetadata orc) \<mapsto>
                 buildInitialTemplate (clock w) (orcMetadata orc) (initialTask orc))\<rparr>)"
  using assms
  by (simp add: ensureInitialized_def freshRun_def noFaults_def ensureSpecFile_cases
      fileExistsAtPath_def orcMetadata_def Let_def)

lemma getDeterminacyState_fresh:
  assumes "freshRun orc w"
  shows "invariants (fst (getDeterminacyState orc w))
           = invariantsOfContent (buildInitialTemplate (clock w) (orcMetadata orc) (initialTask orc))"
    "plan (fst (getDeterminacyState orc w))
           = planItemsOfContent (buildInitialTemplate (clock w) (orcMetadata orc) (initialTask orc))"
proof -
  define p where "p = specPathOf (workspaceRoot orc) (orcMetadata orc)"
  define T where "T = buildInitialTemplate (clock w) (orcMetadata orc) (initialTask orc)"
  define orc1 where "orc1 = orc\<lparr>specPath := Some p\<rparr>"
  define w1 where "w1 = w\<lparr>tick := Suc (Suc (tick w)), files := (files w)(p \<mapsto> T)\<rparr>"
  have e: "ensureInitialized orc w = (Some p, orc1, w1)"
    using ensureInitialized_fresh [OF assms] by (simp add: p_def T_def orc1_def w1_def)
  have nf: "\<not> faults w n" for n using assms by (simp add: freshRun_def noFaults_def)
  have sp: "specPath orc1 = Some p" by (simp add: orc1_def)
  define w2 where "w2 = w1\<lparr>tick := Suc (tick w1)\<rparr>"
  define w3 where "w3 = w2\<lparr>tick := Suc (tick w2)\<rparr>"
  have f1: "files w1 p = Some T" "\<not> faults w1 (tick w1)" using nf by (simp_all add: w1_def)
  have f2: "files w2 p = Some T" "\<not> faults w2 (tick w2)" using nf by (simp_all add: w2_def w1_def)
  have f3: "files w3 p = Some T" "\<not> faults w3 (tick w3)"
    using nf by (simp_all add: w3_def w2_def w1_def)
  have r1: "readInvariants orc1 w1 = (invariantsOfContent T, orc1, w2)"
    unfolding w2_def by (rule reader_ok(1) [OF sp f1])
  have r2: "readPlanItems orc1 w2 = (planItemsOfContent T, orc1, w3)"
    unfolding w3_def by (rule reader_ok(2) [OF sp f2])
  have r3: "hasMappingLayer orc1 w3 = (mappingLayerMeaningful T, orc1, w3\<lparr>tick := Suc (tick w3)\<rparr>)"
    by (rule reader_ok(3) [OF sp f3])
  show "invariants (fst (getDeterminacyState orc w))
           = invariantsOfContent (buildInitialTemplate (clock w) (orcMetadata orc) (initialTask orc))"
    "plan (fst (getDeterminacyState orc w))
           = planItemsOfContent (buildInitialTemplate (clock w) (orcMetadata orc) (initialTask orc))"
    by (simp_all add: getDeterminacyState_def e r1 r2 r3 Let_def T_def)
qed

lemma heading_facts:
  "planHeading \<noteq> []" "CHR 0x0A \<notin> set planHeading" "hd planHeading = CHR ''#''"
  "mechanics \<noteq> []" "CHR 0x0A \<notin> set mechanics" "hd mechanics = CHR ''#''"
  by (simp_all add: planHeading_def mechanics_def)

lemma user_intent_prefix:
  "sublist planHeading (''- User intent: '' @ d) \<longleftrightarrow> sublist planHeading d"
  "sublist mechanics (''- User intent: '' @ d) \<longleftrightarrow> sublist mechanics d"
  by (rule sublist_skip_prefix; simp add: heading_facts)+

lemma fixed_lines_plan:
  "list_all (\<lambda>l. \<not> includesStr l planHeading)
     [[], taskClaim, ''- Task claim: Pending determinacy mapping.'', mappingLayer,
      ''- Entities: _'', ''- Attributes: _'', ''- Relations: _'', ''- Constraints: _'',
      mechanics, ''- Invariants: _'', mappingTable,
      ''| ID | Concept | File:Line(s) | Kind | Status |'',
      ''| -- | -------- | ------------- | ---- | ------ |'',
      ''| M1 | pending | pending | pending | unknown |'']"
  by code_simp

lemma fixed_lines_mechanics:
  "list_all (\<lambda>l. \<not> includesStr l mechanics)
     [[], taskClaim, ''- Task claim: Pending determinacy mapping.'', mappingLayer,
      ''- Entities: _'', ''- Attributes: _'', ''- Relations: _'', ''- Constraints: _'']"
  by code_simp

lemma template_plan_split:
  "buildInitialTemplate now md task =
     joinWith ''\<newline>''
       [buildFrontmatter now md, [], taskClaim, ''- User intent: '' @ templateDescription task,
        ''- Task claim: Pending determinacy mapping.'', [], mappingLayer,
        ''- Entities: _'', ''- Attributes: _'', ''- Relations: _'', ''- Constraints: _'', [],
        mechanics, ''- Invariants: _'', [], mappingTable,
        ''| ID | Concept | File:Line(s) | Kind | Status |'',
        ''| -- | -------- | ------------- | ---- | ------ |'',
        ''| M1 | pending | pending | pending | unknown |'', [], []]
     @ planHeading @ [] @ ''\<newline>- [ ] Pending plan items\<newline>''
     @ ''\<newline>## 5. Implementation Diffs (Agent 3 Output)\<newline>- No implementation actions recorded yet.\<newline>\<newline>## 6. Open Questions / Indeterminate Regions\<newline>- None recorded.\<newline>''"
  by (simp add: buildInitialTemplate_def templateDescription_def Let_def implementation_def
      openQuestions_def)

lemma template_plan_section:
  assumes "\<not> includesStr (buildFrontmatter now md) planHeading"
    "\<not> includesStr (templateDescription task) planHeading"
  shows "sectionSlice (buildInitialTemplate now md task) planHeading
           = Some (planHeading @ ''\<newline>- [ ] Pending plan items\<newline>'')"
proof -
  define P where "P = joinWith ''\<newline>''
       [buildFrontmatter now md, [], taskClaim, ''- User intent: '' @ templateDescription task,
        ''- Task claim: Pending determinacy mapping.'', [], mappingLayer,
        ''- Entities: _'', ''- Attributes: _'', ''- Relations: _'', ''- Constraints: _'', [],
        mechanics, ''- Invariants: _'', [], mappingTable,
        ''| ID | Concept | File:Line(s) | Kind | Status |'',
        ''| -- | -------- | ------------- | ---- | ------ |'',
        ''| M1 | pending | pending | pending | unknown |'', [], []]"
  define R where "R = ''\<newline>## 5. Implementation Diffs (Agent 3 Output)\<newline>- No implementation actions recorded yet.\<newline>\<newline>## 6. Open Questions / Indeterminate Regions\<newline>- None recorded.\<newline>''"
  have c: "buildInitialTemplate now md task
             = P @ planHeading @ [] @ ''\<newline>- [ ] Pending plan items\<newline>'' @ R"
    unfolding P_def R_def by (rule template_plan_split)
  have free: "\<not> includesStr P planHeading"
    using assms fixed_lines_plan
    unfolding P_def includesStr_sublist sublist_joinWith [OF heading_facts(2,1)]
    by (simp add: user_intent_prefix [simplified])
  have lastP: "P = [] \<or> last P = CHR 0x0A" by (simp add: P_def)
  have m: "\<not> includesStr ([] @ ''\<newline>- [ ] Pending plan items\<newline>'') ''\<newline>## ''"
    by code_simp
  have r: "R = [] \<or> startsWith R ''\<newline>## ''" by (simp add: R_def startsWith_def)
  have "sectionAt (buildInitialTemplate now md task) planHeading P []
          ''\<newline>- [ ] Pending plan items\<newline>'' R"
    unfolding sectionAt_def using c free lastP m r heading_facts(1,2) by simp
  from sectionSlice_sectionAt [OF this] show ?thesis by simp
qed

lemma template_mechanics_split:
  "buildInitialTemplate now md task =
     joinWith ''\<newline>''
       [buildFrontmatter now md, [], taskClaim, ''- User intent: '' @ templateDescription task,
        ''- Task claim: Pending determinacy mapping.'', [], mappingLayer,
        ''- Entities: _'', ''- Attributes: _'', ''- Relations: _'', ''- Constraints: _'', [], []]
     @ mechanics @ [] @ ''\<newline>- Invariants: _\<newline>''
     @ (''\<newline>## 3. Code Mapping Table\<newline>| ID | Concept | File:Line(s) | Kind | Status |\<newline>| -- | -------- | ------------- | ---- | ------ |\<newline>| M1 | pending | pending | pending | unknown |\<newline>\<newline>''
        @ planHeading @ ''\<newline>- [ ] Pending plan items\<newline>\<newline>## 5. Implementation Diffs (Agent 3 Output)\<newline>- No implementation actions recorded yet.\<newline>\<newline>## 6. Open Questions / Indeterminate Regions\<newline>- None recorded.\<newline>'')"
  by (simp add: buildInitialTemplate_def templateDescription_def Let_def implementation_def
      openQuestions_def mappingTable_def)

lemma template_mechanics_section:
  assumes "\<not> includesStr (buildFrontmatter now md) mechanics"
    "\<not> includesStr (templateDescription task) mechanics"
  shows "sectionSlice (buildInitialTemplate now md task) mechanics
           = Some (mechanics @ ''\<newline>- Invariants: _\<newline>'')"
proof -
  define P where "P = joinWith ''\<newline>''
       [buildFrontmatter now md, [], taskClaim, ''- User intent: '' @ templateDescription task,
        ''- Task claim: Pending determinacy mapping.'', [], mappingLayer,
        ''- Entities: _'', ''- Attributes: _'', ''- Relations: _'', ''- Constraints: _'', [], []]"
  define R where "R = ''\<newline>## 3. Code Mapping Table\<newline>| ID | Concept | File:Line(s) | Kind | Status |\<newline>| -- | -------- | ------------- | ---- | ------ |\<newline>| M1 | pending | pending | pending | unknown |\<newline>\<newline>''
        @ planHeading @ ''\<newline>- [ ] Pending plan items\<newline>\<newline>## 5. Implementation Diffs (Agent 3 Output)\<newline>- No implementation actions recorded yet.\<newline>\<newline>## 6. Open Questions / Indeterminate Regions\<newline>- None recorded.\<newline>''"
  have c: "buildInitialTemplate now md task
             = P @ mechanics @ [] @ ''\<newline>- Invariants: _\<newline>'' @ R"
    unfolding P_def R_def by (rule template_mechanics_split)
  have free: "\<not> includesStr P mechanics"
    using assms fixed_lines_mechanics
    unfolding P_def includesStr_sublist sublist_joinWith [OF heading_facts(5,4)]
    by (simp add: user_intent_prefix [simplified])
  have lastP: "P = [] \<or> last P = CHR 0x0A" by (simp add: P_def)
  have m: "\<not> includesStr ([] @ ''\<newline>- Invariants: _\<newline>'') ''\<newline>## ''"
    by code_simp
  have r: "R = [] \<or> startsWith R ''\<newline>## ''" by (simp add: R_def startsWith_def)
  have "sectionAt (buildInitialTemplate now md task) mechanics P []
          ''\<newline>- Invariants: _\<newline>'' R"
    unfolding sectionAt_def using c free lastP m r heading_facts(4,5) by simp
  from sectionSlice_sectionAt [OF this] show ?thesis by simp
qed

lemma placeholder_sections_decode:
  "planItemsOfLines 0 (splitLines (planHeading @ ''\<newline>- [ ] Pending plan items\<newline>''))
     = [\<lparr>itemId = ''S2'', itemText = ''Pending plan items'', itemStatus = Todo\<rparr>]"
  "invariantsOfLines 0 (splitLines (mechanics @ ''\<newline>- Invariants: _\<newline>'')) = []"
  by code_simp+

lemma template_decodes:
  assumes "headingsAbsent now md task"
  shows "planItemsOfContent (buildInitialTemplate now md task)
           = [\<lparr>itemId = ''S2'', itemText = ''Pending plan items'', itemStatus = Todo\<rparr>]"
    "invariantsOfContent (buildInitialTemplate now md task) = []"
  using assms
  by (simp_all add: headingsAbsent_def planItemsOfContent_def invariantsOfContent_def
      template_plan_section template_mechanics_section placeholder_sections_decode)

subsection \<open>A task that carries the Plan heading\<close>

lemma template_trap_split:
  assumes "templateDescription task = planInTask"
  shows "buildInitialTemplate now md task =
     joinWith ''\<newline>'' [buildFrontmatter now md, [], taskClaim, ''- User intent: x'', []]
     @ planHeading @ []
     @ ''\<newline>- [x] done\<newline>- Task claim: Pending determinacy mapping.\<newline>''
     @ (''\<newline>## 1. Mapping Layer for this Container\<newline>- Entities: _\<newline>- Attributes: _\<newline>- Relations: _\<newline>- Constraints: _\<newline>\<newline>''
        @ mechanics @ ''\<newline>- Invariants: _\<newline>\<newline>'' @ mappingTable
        @ ''\<newline>| ID | Concept | File:Line(s) | Kind | Status |\<newline>| -- | -------- | ------------- | ---- | ------ |\<newline>| M1 | pending | pending | pending | unknown |\<newline>\<newline>''
        @ planHeading @ ''\<newline>- [ ] Pending plan items\<newline>\<newline>## 5. Implementation Diffs (Agent 3 Output)\<newline>- No implementation actions recorded yet.\<newline>\<newline>## 6. Open Questions / Indeterminate Regions\<newline>- None recorded.\<newline>'')"
  using assms [unfolded templateDescription_def]
  by (simp add: buildInitialTemplate_def Let_def implementation_def openQuestions_def
      mappingLayer_def planInTask_def planHeading_def)

lemma template_trap_section:
  assumes "templateDescription task = planInTask"
    "\<not> includesStr (buildFrontmatter now md) planHeading"
  shows "planItemsOfContent (buildInitialTemplate now md task)
           = [\<lparr>itemId = ''S2'', itemText = ''done'', itemStatus = Done\<rparr>]"
proof -
  define P where "P = joinWith ''\<newline>'' [buildFrontmatter now md, [], taskClaim, ''- User intent: x'', []]"
  define R where "R = ''\<newline>## 1. Mapping Layer for this Container\<newline>- Entities: _\<newline>- Attributes: _\<newline>- Relations: _\<newline>- Constraints: _\<newline>\<newline>''
        @ mechanics @ ''\<newline>- Invariants: _\<newline>\<newline>'' @ mappingTable
        @ ''\<newline>| ID | Concept | File:Line(s) | Kind | Status |\<newline>| -- | -------- | ------------- | ---- | ------ |\<newline>| M1 | pending | pending | pending | unknown |\<newline>\<newline>''
        @ planHeading @ ''\<newline>- [ ] Pending plan items\<newline>\<newline>## 5. Implementation Diffs (Agent 3 Output)\<newline>- No implementation actions recorded yet.\<newline>\<newline>## 6. Open Questions / Indeterminate Regions\<newline>- None recorded.\<newline>''"
  have c: "buildInitialTemplate now md task
             = P @ planHeading @ []
               @ ''\<newline>- [x] done\<newline>- Task claim: Pending determinacy mapping.\<newline>'' @ R"
    unfolding P_def R_def by (rule template_trap_split [OF assms(1)])
  have l: "list_all (\<lambda>l. \<not> includesStr l planHeading) [[], taskClaim, ''- User intent: x'']"
    by code_simp
  have free: "\<not> includesStr P planHeading"
    using assms(2) l
    unfolding P_def includesStr_sublist sublist_joinWith [OF heading_facts(2,1)]
    by simp
  have lastP: "P = [] \<or> last P = CHR 0x0A" by (simp add: P_def)
  have m: "\<not> includesStr ([] @ ''\<newline>- [x] done\<newline>- Task claim: Pending determinacy mapping.\<newline>'') ''\<newline>## ''"
    by code_simp
  have r: "R = [] \<or> startsWith R ''\<newline>## ''" by (simp add: R_def startsWith_def)
  have "sectionAt (buildInitialTemplate now md task) planHeading P []
          ''\<newline>- [x] done\<newline>- Task claim: Pending determinacy mapping.\<newline>'' R"
    unfolding sectionAt_def using c free lastP m r heading_facts(1,2) by simp
  from sectionSlice_sectionAt [OF this]
  have "sectionSlice (buildInitialTemplate now md task) planHeading
          = Some (planHeading @ ''\<newline>- [x] done\<newline>- Task claim: Pending determinacy mapping.\<newline>'')"
    by simp
  moreover have "planItemsOfLines 0 (splitLines (planHeading
       @ ''\<newline>- [x] done\<newline>- Task claim: Pending determinacy mapping.\<newline>''))
       = [\<lparr>itemId = ''S2'', itemText = ''done'', itemStatus = Done\<rparr>]"
    by code_simp
  ultimately show ?thesis by (simp add: planItemsOfContent_def)
qed

lemma fresh_examples:
  "freshRun (freshOrc task) emptyWorld"
  "headingsAbsent (clock emptyWorld) (orcMetadata (freshOrc None)) None"
  "templateDescription (Some planInTask) = planInTask"
  "\<not> includesStr (buildFrontmatter (clock emptyWorld) (orcMetadata (freshOrc (Some planInTask))))
       planHeading"
proof -
  show "freshRun (freshOrc task) emptyWorld"
    by (simp add: freshRun_def freshOrc_def emptyWorld_def noFaults_def)
  show "headingsAbsent (clock emptyWorld) (orcMetadata (freshOrc None)) None" by code_simp
  show "templateDescription (Some planInTask) = planInTask" by code_simp
  show "\<not> includesStr (buildFrontmatter (clock emptyWorld)
         (orcMetadata (freshOrc (Some planInTask)))) planHeading" by code_simp
qed

text \<open>
  Claim C6, amended. The document the registry creates holds the caller's title, scope
  paths and initial task, and the readers find a section at the first occurrence of its
  heading text. When neither the Plan heading nor the Mechanics heading occurs in the
  frontmatter or in the description, the placeholder line of the Plan section decodes as
  the one plan item, with id S2 and status todo, the Mechanics placeholder yields no
  invariant, and the evaluator, run on an orchestrator that creates its document,
  reports determinacy 0 and \<open>readyForImplementation = true\<close>.
\<close>

theorem fresh_document_ready:
  "(headingsAbsent now md task \<longrightarrow>
       planItemsOfContent (buildInitialTemplate now md task)
         = [\<lparr>itemId = ''S2'', itemText = ''Pending plan items'', itemStatus = Todo\<rparr>]
     \<and> invariantsOfContent (buildInitialTemplate now md task) = [])
   \<and> (freshRun orc w \<and> headingsAbsent (clock w) (orcMetadata orc) (initialTask orc) \<longrightarrow>
       plan (fst (getDeterminacyState orc w))
         = [\<lparr>itemId = ''S2'', itemText = ''Pending plan items'', itemStatus = Todo\<rparr>]
     \<and> invariants (fst (getDeterminacyState orc w)) = []
     \<and> determinacy (fst (getDeterminacyState orc w)) = 0
     \<and> readyForImplementation (fst (getDeterminacyState orc w)))"
proof -
  have 1: "planItemsOfContent (buildInitialTemplate now md task)
         = [\<lparr>itemId = ''S2'', itemText = ''Pending plan items'', itemStatus = Todo\<rparr>]
     \<and> invariantsOfContent (buildInitialTemplate now md task) = []"
    if "headingsAbsent now md task"
    using template_decodes [OF that] by simp
  have 2: "plan (fst (getDeterminacyState orc w))
         = [\<lparr>itemId = ''S2'', itemText = ''Pending plan items'', itemStatus = Todo\<rparr>]
     \<and> invariants (fst (getDeterminacyState orc w)) = []
     \<and> determinacy (fst (getDeterminacyState orc w)) = 0
     \<and> readyForImplementation (fst (getDeterminacyState orc w))"
    if f: "freshRun orc w" and h: "headingsAbsent (clock w) (orcMetadata orc) (initialTask orc)"
  proof -
    have p: "plan (fst (getDeterminacyState orc w))
         = [\<lparr>itemId = ''S2'', itemText = ''Pending plan items'', itemStatus = Todo\<rparr>]"
      using getDeterminacyState_fresh(2) [OF f] template_decodes(1) [OF h] by simp
    have i: "invariants (fst (getDeterminacyState orc w)) = []"
      using getDeterminacyState_fresh(1) [OF f] template_decodes(2) [OF h] by simp
    have d: "determinacy (fst (getDeterminacyState orc w)) = 0"
      by (subst determinacy_eq) (simp add: i)
    have r: "readyForImplementation (fst (getDeterminacyState orc w))"
      by (subst readyForImplementation_eq) (simp add: p i)
    from p i d r show ?thesis by simp
  qed
  from 1 2 show ?thesis by blast
qed

theorem fresh_document_counterexample:
  "freshRun (freshOrc (Some planInTask)) emptyWorld
   \<and> plan (fst (getDeterminacyState (freshOrc (Some planInTask)) emptyWorld))
       = [\<lparr>itemId = ''S2'', itemText = ''done'', itemStatus = Done\<rparr>]
   \<and> \<not> readyForImplementation (fst (getDeterminacyState (freshOrc (Some planInTask)) emptyWorld))"
proof -
  have t: "initialTask (freshOrc (Some planInTask)) = Some planInTask" by (simp add: freshOrc_def)
  have p: "plan (fst (getDeterminacyState (freshOrc (Some planInTask)) emptyWorld))
       = [\<lparr>itemId = ''S2'', itemText = ''done'', itemStatus = Done\<rparr>]"
    using getDeterminacyState_fresh(2) [OF fresh_examples(1), of "Some planInTask"]
      template_trap_section [OF fresh_examples(3,4)]
    by (simp add: t)
  have "\<not> readyForImplementation (fst (getDeterminacyState (freshOrc (Some planInTask)) emptyWorld))"
    by (subst readyForImplementation_eq) (simp add: p)
  with p fresh_examples(1) show ?thesis by simp
qed

theorem fresh_document_ready_witness:
  "headingsAbsent (clock emptyWorld) (orcMetadata (freshOrc None)) None
   \<and> freshRun (freshOrc None) emptyWorld
   \<and> planItemsOfContent (buildInitialTemplate (clock emptyWorld) (orcMetadata (freshOrc None)) None)
       = [\<lparr>itemId = ''S2'', itemText = ''Pending plan items'', itemStatus = Todo\<rparr>]
   \<and> invariants (fst (getDeterminacyState (freshOrc None) emptyWorld)) = []
   \<and> determinacy (fst (getDeterminacyState (freshOrc None) emptyWorld)) = 0
   \<and> readyForImplementation (fst (getDeterminacyState (freshOrc None) emptyWorld))"
proof -
  have t: "initialTask (freshOrc None) = None" by (simp add: freshOrc_def)
  show ?thesis
    using fresh_document_ready [where now = "clock emptyWorld" and md = "orcMetadata (freshOrc None)"
        and task = None and orc = "freshOrc None" and w = emptyWorld]
      fresh_examples(1) [of None] fresh_examples(2)
    by (simp add: t)
qed

subsection \<open>Completing a plan step\<close>

lemma exLayout_facts:
  "wellFormed exLayout"
  "rereadable (invariantsOfContent (render exLayout))"
  "planItemsOfContent (render exLayout)
     = [\<lparr>itemId = ''S2'', itemText = ''run lint'', itemStatus = Todo\<rparr>,
        \<lparr>itemId = ''S3'', itemText = ''deploy'', itemStatus = Done\<rparr>]"
  "invariantsOfContent (render exLayout)
     = [\<lparr>invId = ''I2'', description = ''a'', invStatus = Unknown\<rparr>,
        \<lparr>invId = ''I3'', description = ''b'', invStatus = Unknown\<rparr>]"
  by code_simp+

lemma exWorld_facts:
  "noFaults (exWorld content)" "CHR ''#'' \<notin> set (clock (exWorld content))"
  by (simp_all add: noFaults_def exWorld_def)

text \<open>
  Claim C4, as amended. Let the document hold the headings of Task-Claim, Mechanics, Plan
  and Implementation, each alone on a line and at its first occurrence, in this order, let
  every invariant it holds have a description that is not empty and has no line
  terminator, and let no storage call fail (the clock text has no hash sign). Then
  \<open>markPlanStepComplete\<close> with the id of a plan item leaves a document whose plan items
  are the former ones, in order and with the same texts, the item with that id done and
  every other status as it was; and whose invariants are the former ones, with the first
  unknown invariant in document order, if there is one, satisfied and no other changed.
  The ids number the lines of a section and are not compared.
\<close>

theorem markPlanStepComplete_advances:
  assumes "specPath orc = Some p" and "files w p = Some (render L)" and "wellFormed L"
    and "noFaults w" and "CHR ''#'' \<notin> set (clock w)"
    and "rereadable (invariantsOfContent (render L))"
    and "stepId \<in> set (map itemId (planItemsOfContent (render L)))"
  shows "let c' = the (files (snd (markPlanStepComplete stepId stepNote orc w)) p);
             plan0 = planItemsOfContent (render L);
             invs0 = invariantsOfContent (render L)
         in planView (planItemsOfContent c')
              = map (\<lambda>it. (itemText it, if itemId it = stepId then Done else itemStatus it)) plan0
            \<and> (case findIndex (\<lambda>i. invStatus i = Unknown) invs0 of
                  None \<Rightarrow> invariantView (invariantsOfContent c') = invariantView invs0
                | Some k \<Rightarrow>
                    k < length invs0 \<and> invStatus (invs0 ! k) = Unknown
                    \<and> (\<forall>j<k. invStatus (invs0 ! j) \<noteq> Unknown)
                    \<and> invariantView (invariantsOfContent c')
                        = (invariantView invs0)[k := (description (invs0 ! k), Satisfied)])"
proof -
  note run = markPlanStepComplete_run [OF assms(1-6), of stepId stepNote]
  from assms(7) have ne: "planItemsOfContent (render L) \<noteq> []" by auto
  have 1: "planView (planItemsOfContent (the (files (snd (markPlanStepComplete stepId stepNote orc w)) p)))
             = map (\<lambda>it. (itemText it, if itemId it = stepId then Done else itemStatus it))
                 (planItemsOfContent (render L))"
    using run(1) ne by simp
  have 2: "case findIndex (\<lambda>i. invStatus i = Unknown) (invariantsOfContent (render L)) of
                  None \<Rightarrow> invariantView (invariantsOfContent
                            (the (files (snd (markPlanStepComplete stepId stepNote orc w)) p)))
                          = invariantView (invariantsOfContent (render L))
                | Some k \<Rightarrow>
                    k < length (invariantsOfContent (render L))
                    \<and> invStatus (invariantsOfContent (render L) ! k) = Unknown
                    \<and> (\<forall>j<k. invStatus (invariantsOfContent (render L) ! j) \<noteq> Unknown)
                    \<and> invariantView (invariantsOfContent
                          (the (files (snd (markPlanStepComplete stepId stepNote orc w)) p)))
                        = (invariantView (invariantsOfContent (render L)))
                            [k := (description (invariantsOfContent (render L) ! k), Satisfied)]"
  proof (cases "findIndex (\<lambda>i. invStatus i = Unknown) (invariantsOfContent (render L))")
    case None
    with run(2) show ?thesis by simp
  next
    case (Some k)
    from findIndex_first [OF Some] run(2) Some show ?thesis by simp
  qed
  from 1 2 show ?thesis unfolding Let_def by (rule conjI)
qed

theorem markPlanStepComplete_advances_counterexample:
  "map itemId (planItemsOfContent headingInPlan) = [''S2'', ''S3'']
   \<and> planView (planItemsOfContent headingInPlan)
       = [(''see ## 2. Mechanics & Invariants'', Todo), (''b'', Todo)]
   \<and> planView (planItemsOfContent
        (the (files (snd (markPlanStepComplete ''S3'' None exOrc (exWorld headingInPlan))) exPath)))
       = [(''see ## 2. Mechanics & Invariants'', Todo)]"
  by code_simp

theorem markPlanStepComplete_advances_witness:
  "specPath exOrc = Some exPath
   \<and> files (exWorld (render exLayout)) exPath = Some (render exLayout)
   \<and> wellFormed exLayout \<and> noFaults (exWorld (render exLayout))
   \<and> CHR ''#'' \<notin> set (clock (exWorld (render exLayout)))
   \<and> rereadable (invariantsOfContent (render exLayout))
   \<and> ''S2'' \<in> set (map itemId (planItemsOfContent (render exLayout)))
   \<and> planView (planItemsOfContent (render exLayout)) = [(''run lint'', Todo), (''deploy'', Done)]
   \<and> invariantView (invariantsOfContent (render exLayout)) = [(''a'', Unknown), (''b'', Unknown)]
   \<and> planView (planItemsOfContent
        (the (files (snd (markPlanStepComplete ''S2'' None exOrc (exWorld (render exLayout)))) exPath)))
       = [(''run lint'', Done), (''deploy'', Done)]
   \<and> invariantView (invariantsOfContent
        (the (files (snd (markPlanStepComplete ''S2'' None exOrc (exWorld (render exLayout)))) exPath)))
       = [(''a'', Satisfied), (''b'', Unknown)]"
proof -
  have m: "''S2'' \<in> set (map itemId (planItemsOfContent (render exLayout)))"
    by (simp add: exLayout_facts(3))
  have v: "planView (planItemsOfContent (render exLayout)) = [(''run lint'', Todo), (''deploy'', Done)]"
    "invariantView (invariantsOfContent (render exLayout)) = [(''a'', Unknown), (''b'', Unknown)]"
    by (simp_all add: exLayout_facts(3,4) planView_def invariantView_def)
  have t: "planView (planItemsOfContent
        (the (files (snd (markPlanStepComplete ''S2'' None exOrc (exWorld (render exLayout)))) exPath)))
       = [(''run lint'', Done), (''deploy'', Done)]
   \<and> invariantView (invariantsOfContent
        (the (files (snd (markPlanStepComplete ''S2'' None exOrc (exWorld (render exLayout)))) exPath)))
       = [(''a'', Satisfied), (''b'', Unknown)]"
    using markPlanStepComplete_advances [OF exOrc_path exWorld_file exLayout_facts(1)
        exWorld_facts exLayout_facts(2) m, of None]
    by (simp add: exLayout_facts(3,4) invariantView_def Let_def)
  from exOrc_path exWorld_file exLayout_facts(1,2) exWorld_facts m v t show ?thesis by blast
qed




end
